theory Spec2Isabelle
  imports Main "HOL-Library.Sublist"
begin

section \<open>The capture buffer of \<^verbatim>\<open>modules/buffer.py\<close>\<close>

text \<open>
  \<^verbatim>\<open>BufferManager\<close> keeps pending screenshots in a \<^verbatim>\<open>queue.Queue\<close>, remembers the
  MD5 digests of what it holds in \<^verbatim>\<open>image_hashes\<close>, and writes the queue to disk in
  \<^verbatim>\<open>_save_worker\<close>. The model passes the object's fields explicitly and records what
  the methods do to the outside world (directory creation, file writes, log calls,
  Qt signals) in lists, in the order the calls are made. What the operating system,
  \<^verbatim>\<open>hashlib\<close> and Qt answer is a parameter of every operation. What the methods
  \<^verbatim>\<open>print\<close> is left out.
\<close>

subsection \<open>Exceptions and results\<close>

text \<open>
  Only two kinds of exception are told apart by the code: \<^verbatim>\<open>PermissionError\<close>, which
  has handlers of its own, and every other subclass of \<^verbatim>\<open>Exception\<close>.
\<close>

datatype error = PermissionError | OtherException

text \<open>
  A method either returns, or raises with the fields as they were at the raise, or
  never returns because it waits for a lock or on a full queue that nothing will free.
\<close>

datatype outcome = Returned | Raised error | Blocked

subsection \<open>Paths\<close>

type_synonym path = string

text \<open>
  \<^verbatim>\<open>os.path.join\<close>, \<^verbatim>\<open>os.path.basename\<close> and \<^verbatim>\<open>os.path.dirname\<close> for two
  components, written with the separator \<open>/\<close>.
\<close>

definition join :: "path \<Rightarrow> path \<Rightarrow> path" where
  "join a b =
     (if b \<noteq> [] \<and> hd b = CHR ''/'' then b
      else if a = [] \<or> last a = CHR ''/'' then a @ b
      else a @ ''/'' @ b)"

definition basename :: "path \<Rightarrow> path" where
  "basename p = rev (takeWhile (\<lambda>c. c \<noteq> CHR ''/'') (rev p))"

definition dirname :: "path \<Rightarrow> path" where
  "dirname p =
     (let head = rev (dropWhile (\<lambda>c. c \<noteq> CHR ''/'') (rev p))
      in if head \<noteq> [] \<and> (\<exists>c \<in> set head. c \<noteq> CHR ''/'')
         then rev (dropWhile (\<lambda>c. c = CHR ''/'') (rev head))
         else head)"

subsection \<open>Data\<close>

text \<open>
  The argument of \<^verbatim>\<open>add_to_buffer\<close> is either a byte buffer (the \<^verbatim>\<open>QByteArray\<close> that
  \<^verbatim>\<open>save_to_memory\<close> returns) or an object that \<^verbatim>\<open>hashlib.md5\<close> rejects.
\<close>

datatype image_data = ByteArray string | NotBytes

text \<open>The dictionary that \<^verbatim>\<open>add_to_buffer\<close> puts into the queue.\<close>

record item =
  data :: image_data
  timestamp :: int
  filepath :: path
  date_str :: string
  filename :: string
  hash :: "string option"

text \<open>
  One reading of the clock in \<^verbatim>\<open>add_to_buffer\<close>: \<^verbatim>\<open>time.time()\<close> with the folder
  name (\<^verbatim>\<open>get_date_folder_name\<close>, or the built-in rendering with the weekday) and
  the file name (\<^verbatim>\<open>strftime("%Y-%m-%d-%H-%M-%S.png")\<close>) made from it.
\<close>

record stamp =
  now :: int
  folder_name :: string
  file_name :: string

text \<open>
  \<^verbatim>\<open>queue.Queue\<close>: \<^verbatim>\<open>maxsize <= 0\<close> means unbounded; \<^verbatim>\<open>put\<close> waits while the
  queue is full and \<^verbatim>\<open>get\<close> waits while it is empty.
\<close>

record py_queue =
  maxsize :: int
  queue :: "item list"

definition Queue :: "int \<Rightarrow> py_queue" where
  "Queue n = \<lparr>maxsize = n, queue = []\<rparr>"

definition qsize :: "py_queue \<Rightarrow> int" where
  "qsize q = int (length (queue q))"

definition empty_q :: "py_queue \<Rightarrow> bool" where
  "empty_q q = (qsize q = 0)"

definition full :: "py_queue \<Rightarrow> bool" where
  "full q = (0 < maxsize q \<and> maxsize q \<le> qsize q)"

definition put :: "py_queue \<Rightarrow> item \<Rightarrow> py_queue option" where
  "put q x = (if full q then None else Some (q\<lparr>queue := queue q @ [x]\<rparr>))"

definition get :: "py_queue \<Rightarrow> (item \<times> py_queue) option" where
  "get q = (case queue q of [] \<Rightarrow> None | x # xs \<Rightarrow> Some (x, q\<lparr>queue := xs\<rparr>))"

text \<open>The slice \<^verbatim>\<open>xs[:n]\<close>; a negative \<open>n\<close> counts from the end.\<close>

definition slice_to :: "int \<Rightarrow> 'a list \<Rightarrow> 'a list" where
  "slice_to n xs =
     (if 0 \<le> n then take (nat n) xs else take (nat (int (length xs) + n)) xs)"

subsection \<open>Effects\<close>

datatype level = INFO | ERROR

text \<open>The texts handed to \<^verbatim>\<open>log_manager.add_log\<close>, by the place that builds them.\<close>

datatype message =
    DuplicateSkipped
  | AddedToBuffer int int
  | SavedFile string
  | SaveFailed error
  | SavedCount nat

datatype signal = BufferUpdated int int | BufferFull

datatype fs_op = MakeDirs path | SavePixmap path image_data

text \<open>The statements that write a field shared between the threads.\<close>

datatype access = HashAdd | HashClear | QueueGet | QueuePut | QueueNew | CountSet | MaxSizeSet

text \<open>
  The answers of the world: the home directory (\<^verbatim>\<open>os.path.expanduser("~")\<close>), the
  digest of a byte string (\<^verbatim>\<open>hashlib.md5(b).hexdigest()\<close>), whether
  \<^verbatim>\<open>os.makedirs(p, exist_ok=True)\<close> raises, what \<^verbatim>\<open>QPixmap.loadFromData\<close> makes of
  the data (\<open>Inr True\<close> a pixmap that is not null, \<open>Inr False\<close> a null pixmap), and
  what \<^verbatim>\<open>QPixmap.save\<close> does (\<open>Inr b\<close> its return value, \<open>Inl\<close> a raise).
\<close>

record env =
  home :: path
  md5_hexdigest :: "string \<Rightarrow> string"
  makedirs :: "path \<Rightarrow> error option"
  loadFromData :: "image_data \<Rightarrow> error + bool"
  pixmap_save :: "path \<Rightarrow> image_data \<Rightarrow> error + bool"

text \<open>
  The fields of \<^verbatim>\<open>BufferManager\<close> that the methods below read or write, followed by
  the effects so far. \<open>log_manager\<close> is \<open>None\<close> when the object was built without
  one, else the calls of \<^verbatim>\<open>add_log\<close> it has received. \<open>lock\<close> tells whether
  \<^verbatim>\<open>self.lock\<close> is held. \<open>accesses\<close> notes, for every write of \<^verbatim>\<open>ram_buffer\<close>,
  \<^verbatim>\<open>image_hashes\<close>, \<^verbatim>\<open>buffer_count\<close> or \<^verbatim>\<open>max_size\<close>, whether the lock was held
  when the statement ran.
\<close>

record state =
  max_size :: int
  ram_buffer :: py_queue
  save_path :: path
  log_manager :: "(level \<times> message) list option"
  lock :: bool
  buffer_count :: int
  image_hashes :: "string set"
  fs_ops :: "fs_op list"
  signals :: "signal list"
  accesses :: "(bool \<times> access) list"

definition init :: "path \<Rightarrow> (level \<times> message) list option \<Rightarrow> state" where
  "init p lm =
     \<lparr>max_size = 100, ram_buffer = Queue 100, save_path = p, log_manager = lm,
      lock = False, buffer_count = 0, image_hashes = {}, fs_ops = [], signals = [],
      accesses = []\<rparr>"

definition add_log :: "level \<Rightarrow> message \<Rightarrow> state \<Rightarrow> state" where
  "add_log l m s =
     (case log_manager s of
        None \<Rightarrow> s
      | Some entries \<Rightarrow> s\<lparr>log_manager := Some (entries @ [(l, m)])\<rparr>)"

definition emit :: "signal \<Rightarrow> state \<Rightarrow> state" where
  "emit g s = s\<lparr>signals := signals s @ [g]\<rparr>"

definition fs :: "fs_op \<Rightarrow> state \<Rightarrow> state" where
  "fs x s = s\<lparr>fs_ops := fs_ops s @ [x]\<rparr>"

definition touch :: "access \<Rightarrow> state \<Rightarrow> state" where
  "touch a s = s\<lparr>accesses := accesses s @ [(lock s, a)]\<rparr>"

subsection \<open>\<^verbatim>\<open>calculate_image_hash\<close>\<close>

definition calculate_image_hash :: "env \<Rightarrow> image_data \<Rightarrow> string option" where
  "calculate_image_hash e d =
     (case d of ByteArray b \<Rightarrow> Some (md5_hexdigest e b) | NotBytes \<Rightarrow> None)"

text \<open>The truth value of \<^verbatim>\<open>image_hash\<close> in \<^verbatim>\<open>if image_hash\<close>.\<close>

definition truthy :: "string option \<Rightarrow> bool" where
  "truthy h = (case h of None \<Rightarrow> False | Some x \<Rightarrow> x \<noteq> [])"

subsection \<open>\<^verbatim>\<open>_save_worker\<close>\<close>

definition user_docs :: "env \<Rightarrow> string \<Rightarrow> path" where
  "user_docs e ds = join (join (join (home e) ''Documents'') ''SmartBoardScreenshots'') ds"

text \<open>The handler of the loop body: \<^verbatim>\<open>except Exception as e\<close>.\<close>

definition save_failed :: "error \<Rightarrow> nat \<Rightarrow> state \<Rightarrow> nat \<times> state" where
  "save_failed x saved s = (saved, add_log ERROR (SaveFailed x) s)"

definition save_done :: "path \<Rightarrow> nat \<Rightarrow> state \<Rightarrow> nat \<times> state" where
  "save_done fp saved s = (Suc saved, add_log INFO (SavedFile (basename fp)) s)"

text \<open>
  The second half of the loop body, from \<^verbatim>\<open>pixmap = QPixmap()\<close> on, for the path
  \<open>fp\<close> that the first half settled on. The value that \<^verbatim>\<open>pixmap.save\<close> returns is not
  looked at.
\<close>

definition load_and_save :: "env \<Rightarrow> item \<Rightarrow> path \<Rightarrow> nat \<Rightarrow> state \<Rightarrow> nat \<times> state" where
  "load_and_save e it fp saved s =
     (case loadFromData e (data it) of
        Inl x \<Rightarrow> save_failed x saved s
      | Inr ok \<Rightarrow>
          if \<not> ok then (saved, s)
          else
            (let s1 = fs (SavePixmap fp (data it)) s
             in case pixmap_save e fp (data it) of
                  Inr r \<Rightarrow> save_done fp saved s1
                | Inl x \<Rightarrow>
                    (let ud = user_docs e (date_str it);
                         backup_path = join ud (basename fp);
                         s2 = fs (MakeDirs ud) s1
                     in case makedirs e ud of
                          Some y \<Rightarrow> save_failed y saved s2
                        | None \<Rightarrow>
                            (let s3 = fs (SavePixmap backup_path (data it)) s2
                             in case pixmap_save e backup_path (data it) of
                                  Inl y \<Rightarrow> save_failed y saved s3
                                | Inr r \<Rightarrow> save_done backup_path saved s3))))"

text \<open>The loop body after \<^verbatim>\<open>item = self.ram_buffer.get()\<close>.\<close>

definition save_item :: "env \<Rightarrow> item \<Rightarrow> nat \<Rightarrow> state \<Rightarrow> nat \<times> state" where
  "save_item e it saved s =
     (let date_dir = dirname (filepath it);
          s1 = fs (MakeDirs date_dir) s
      in case makedirs e date_dir of
           None \<Rightarrow> load_and_save e it (filepath it) saved s1
         | Some x \<Rightarrow>
             if x = PermissionError then
               (let ud = user_docs e (date_str it);
                    fp = join ud (basename (filepath it));
                    s2 = fs (MakeDirs ud) s1
                in case makedirs e ud of
                     Some y \<Rightarrow> save_failed y saved s2
                   | None \<Rightarrow> load_and_save e it fp saved s2)
             else save_failed x saved s1)"

text \<open>
  \<^verbatim>\<open>while not self.ram_buffer.empty(): item = self.ram_buffer.get(); ...\<close> with
  the count of saved items. After the test the queue has an item, so \<^verbatim>\<open>get\<close> does
  not wait.
\<close>

function save_loop :: "env \<Rightarrow> nat \<Rightarrow> state \<Rightarrow> nat \<times> state" where
  "save_loop e saved s =
     (if empty_q (ram_buffer s) then (saved, s)
      else case get (ram_buffer s) of
             None \<Rightarrow> (saved, s)
           | Some (it, q) \<Rightarrow>
               (let r = save_item e it saved (touch QueueGet (s\<lparr>ram_buffer := q\<rparr>))
                in save_loop e (fst r) (snd r)))"
  by pat_completeness auto
termination
proof (relation "measure (\<lambda>(e, saved, s). length (queue (ram_buffer s)))")
  show "wf (measure (\<lambda>(e, saved, s). length (queue (ram_buffer s))))"
    by simp
next
  fix e :: env and saved :: nat and s :: state and x2 it q r
  assume g: "get (ram_buffer s) = Some x2" "(it, q) = x2"
    and r: "r = save_item e it saved (touch QueueGet (s\<lparr>ram_buffer := q\<rparr>))"
  have "ram_buffer (snd (load_and_save e it fp saved s')) = ram_buffer s'" for fp s'
    by (simp add: load_and_save_def save_failed_def save_done_def add_log_def fs_def Let_def
        split: sum.splits option.splits)
  then have "ram_buffer (snd r) = q"
    by (simp add: r save_item_def save_failed_def add_log_def fs_def touch_def Let_def
        split: option.splits)
  moreover have "length (queue q) < length (queue (ram_buffer s))"
    using g by (auto simp: get_def split: list.splits)
  ultimately show "((e, fst r, snd r), (e, saved, s))
       \<in> measure (\<lambda>(e, saved, s). length (queue (ram_buffer s)))"
    by (simp add: case_prod_beta)
qed

declare save_loop.simps [simp del]

definition save_worker :: "env \<Rightarrow> state \<Rightarrow> state" where
  "save_worker e s =
     (if empty_q (ram_buffer s) then s
      else
        (let r = save_loop e 0 s;
             saved_count = fst r;
             s1 = snd r;
             s2 = touch CountSet (s1\<lparr>buffer_count := qsize (ram_buffer s1)\<rparr>);
             s3 = emit (BufferUpdated (buffer_count s2) (max_size s2)) s2;
             s4 = touch HashClear (s3\<lparr>image_hashes := {}\<rparr>)
         in if 0 < saved_count then add_log INFO (SavedCount saved_count) s4 else s4))"

subsection \<open>The lock\<close>

text \<open>
  \<^verbatim>\<open>with self.lock:\<close> on a \<^verbatim>\<open>threading.Lock\<close>, which is not reentrant: the
  body runs with the lock held, and the lock is released when the body returns or
  raises.
\<close>

definition with_lock :: "(state \<Rightarrow> outcome \<times> state) \<Rightarrow> state \<Rightarrow> outcome \<times> state" where
  "with_lock body s =
     (if lock s then (Blocked, s)
      else (let r = body (s\<lparr>lock := True\<rparr>) in (fst r, (snd r)\<lparr>lock := False\<rparr>)))"

subsection \<open>\<^verbatim>\<open>set_buffer_size\<close>\<close>

text \<open>
  \<^verbatim>\<open>self.ram_buffer.put(item)\<close>, and the loop
  \<^verbatim>\<open>for item in old_buffer[:size]: self.ram_buffer.put(item)\<close>.
\<close>

definition put_item :: "item \<Rightarrow> state \<Rightarrow> outcome \<times> state" where
  "put_item it s =
     (case put (ram_buffer s) it of
        None \<Rightarrow> (Blocked, s)
      | Some q \<Rightarrow> (Returned, touch QueuePut (s\<lparr>ram_buffer := q\<rparr>)))"

fun put_all :: "item list \<Rightarrow> state \<Rightarrow> outcome \<times> state" where
  "put_all [] s = (Returned, s)"
| "put_all (it # its) s =
     (case put_item it s of
        (Returned, s') \<Rightarrow> put_all its s'
      | (r, s') \<Rightarrow> (r, s'))"

definition set_buffer_size_body :: "int \<Rightarrow> state \<Rightarrow> outcome \<times> state" where
  "set_buffer_size_body n s =
     (let s1 = touch MaxSizeSet (s\<lparr>max_size := n\<rparr>);
          old_buffer = queue (ram_buffer s1);
          s2 = touch QueueNew (s1\<lparr>ram_buffer := Queue n\<rparr>)
      in put_all (slice_to n old_buffer) s2)"

definition set_buffer_size :: "int \<Rightarrow> state \<Rightarrow> outcome \<times> state" where
  "set_buffer_size n s = with_lock (set_buffer_size_body n) s"

subsection \<open>\<^verbatim>\<open>add_to_buffer\<close>\<close>

text \<open>The tail of the method, from \<^verbatim>\<open>filename = ...\<close> on, for the directory settled on.\<close>

definition enqueue :: "stamp \<Rightarrow> image_data \<Rightarrow> string option \<Rightarrow> path \<Rightarrow> state \<Rightarrow> outcome \<times> state" where
  "enqueue st d image_hash date_dir s =
     (case put_item
             \<lparr>data = d, timestamp = now st, filepath = join date_dir (file_name st),
              date_str = folder_name st, filename = file_name st, hash = image_hash\<rparr> s of
        (Returned, s1) \<Rightarrow>
          (let s2 = touch CountSet (s1\<lparr>buffer_count := qsize (ram_buffer s1)\<rparr>);
               s3 = emit (BufferUpdated (buffer_count s2) (max_size s2)) s2
           in (Returned, add_log INFO (AddedToBuffer (buffer_count s3) (max_size s3)) s3))
      | (r, s1) \<Rightarrow> (r, s1))"

definition add_to_buffer_body :: "env \<Rightarrow> stamp \<Rightarrow> image_data \<Rightarrow> state \<Rightarrow> outcome \<times> state" where
  "add_to_buffer_body e st d s =
     (let image_hash = calculate_image_hash e d
      in if truthy image_hash \<and> image_hash \<in> Some ` image_hashes s
         then (Returned, add_log INFO DuplicateSkipped s)
         else
           (let s1 = (if truthy image_hash
                      then touch HashAdd (s\<lparr>image_hashes := image_hashes s \<union> set_option image_hash\<rparr>)
                      else s);
                s2 = (if full (ram_buffer s1) then save_worker e (emit BufferFull s1) else s1);
                date_dir = join (save_path s2) (folder_name st);
                s3 = fs (MakeDirs date_dir) s2
            in case makedirs e date_dir of
                 None \<Rightarrow> enqueue st d image_hash date_dir s3
               | Some x \<Rightarrow>
                   if x = PermissionError then
                     (let ud = user_docs e (folder_name st);
                          s4 = fs (MakeDirs ud) s3
                      in case makedirs e ud of
                           Some y \<Rightarrow> (Raised y, s4)
                         | None \<Rightarrow> enqueue st d image_hash ud s4)
                   else (Raised x, s3)))"

definition add_to_buffer :: "env \<Rightarrow> stamp \<Rightarrow> image_data \<Rightarrow> state \<Rightarrow> outcome \<times> state" where
  "add_to_buffer e st d s = with_lock (add_to_buffer_body e st d) s"

subsection \<open>The callers of \<^verbatim>\<open>_save_worker\<close> outside \<^verbatim>\<open>add_to_buffer\<close>\<close>

text \<open>
  One round of \<^verbatim>\<open>_auto_save_worker\<close>, which runs on the thread that
  \<^verbatim>\<open>start_auto_save\<close> starts: \<^verbatim>\<open>self._save_worker()\<close>, then the wait.
\<close>

definition auto_save_round :: "env \<Rightarrow> state \<Rightarrow> state" where
  "auto_save_round e s = save_worker e s"

text \<open>
  \<^verbatim>\<open>SmartBoardApp.check_save_times\<close> of \<^verbatim>\<open>main.py\<close>, as far as the buffer goes: the
  clock as \<^verbatim>\<open>HH:MM\<close> and the configured times are arguments.
\<close>

definition check_save_times :: "env \<Rightarrow> bool \<Rightarrow> string \<Rightarrow> string list \<Rightarrow> state \<Rightarrow> state" where
  "check_save_times e is_monitoring current_time save_times s =
     (if \<not> is_monitoring then s
      else if current_time \<in> set save_times then save_worker e s
      else s)"

subsection \<open>Sequences of operations\<close>

datatype op = Add stamp image_data | DrainAll | Resize int

text \<open>
  The caller of \<^verbatim>\<open>add_to_buffer\<close> (\<^verbatim>\<open>handle_capture\<close>) catches what it raises, so
  the next operation runs on the fields as the raise left them. Nothing runs after an
  operation that never returns.
\<close>

fun step :: "env \<Rightarrow> op \<Rightarrow> state \<Rightarrow> outcome \<times> state" where
  "step e (Add st d) s = add_to_buffer e st d s"
| "step e DrainAll s = (Returned, save_worker e s)"
| "step e (Resize n) s = set_buffer_size n s"

fun run :: "env \<Rightarrow> op list \<Rightarrow> state \<Rightarrow> state option" where
  "run e [] s = Some s"
| "run e (x # xs) s =
     (case step e x s of
        (Blocked, s') \<Rightarrow> None
      | (r, s') \<Rightarrow> run e xs s')"

section \<open>Process matching in \<^verbatim>\<open>modules/screenshot.py\<close>\<close>

text \<open>
  \<^verbatim>\<open>str.lower\<close> and \<^verbatim>\<open>str.strip\<close> on ASCII text: the letters \<open>A\<close> to \<open>Z\<close> are
  mapped to \<open>a\<close> to \<open>z\<close>, and the white space stripped is the characters 9 to 13,
  28 to 31 and 32.
\<close>

definition lower_char :: "char \<Rightarrow> char" where
  "lower_char c =
     (let n = (of_char c :: nat) in if 65 \<le> n \<and> n \<le> 90 then char_of (n + 32) else c)"

definition lower :: "string \<Rightarrow> string" where
  "lower s = map lower_char s"

definition is_space :: "char \<Rightarrow> bool" where
  "is_space c =
     (let n = (of_char c :: nat) in n = 32 \<or> (9 \<le> n \<and> n \<le> 13) \<or> (28 \<le> n \<and> n \<le> 31))"

definition strip :: "string \<Rightarrow> string" where
  "strip s = rev (dropWhile is_space (rev (dropWhile is_space s)))"

text \<open>
  What the two calls to the system answer for the window in front: the name of the
  process that owns it (\<^verbatim>\<open>GetWindowThreadProcessId\<close>, \<^verbatim>\<open>psutil.Process(pid).name()\<close>)
  and the picture of its rectangle (\<^verbatim>\<open>GetWindowRect\<close>, \<^verbatim>\<open>grabWindow\<close>); \<open>Inl\<close> is
  a raise.
\<close>

record 'p foreground =
  owner_name :: "error + string"
  grab_window :: "error + 'p"

text \<open>The body of the loop in \<^verbatim>\<open>_is_target_process\<close> for one entry.\<close>

definition target_of :: "string \<Rightarrow> string" where
  "target_of target_name =
     (let t = lower (strip target_name)
      in if suffix ''.exe'' t then t else t @ ''.exe'')"

definition is_target_process :: "'p foreground \<Rightarrow> string list \<Rightarrow> bool" where
  "is_target_process w process_names =
     (case owner_name w of
        Inl x \<Rightarrow> False
      | Inr name \<Rightarrow> list_ex (\<lambda>target_name. sublist (target_of target_name) (lower name)) process_names)"

definition capture_foreground_window :: "'p foreground \<Rightarrow> string list \<Rightarrow> 'p option" where
  "capture_foreground_window w process_names =
     (if process_names \<noteq> [] \<and> \<not> is_target_process w process_names then None
      else case grab_window w of Inl x \<Rightarrow> None | Inr pixmap \<Rightarrow> Some pixmap)"

text \<open>
  The matching as the specification words it: the base names of the executable and of
  the entry are equal, letter case aside, where the base name is the name without a
  final \<open>.exe\<close>.
\<close>

definition base_name :: "string \<Rightarrow> string" where
  "base_name s = (let t = lower s in if suffix ''.exe'' t then take (length t - 4) t else t)"

definition spec_matches :: "string \<Rightarrow> string \<Rightarrow> bool" where
  "spec_matches name entry = (base_name name = base_name (strip entry))"

subsection \<open>The check of the same names in \<^verbatim>\<open>modules/gui.py\<close>\<close>

text \<open>
  \<^verbatim>\<open>SmartBoardGUI.is_process_running\<close>, which tells the user whether an entry of the
  list names a running process: the argument is the names that
  \<^verbatim>\<open>psutil.process_iter(['name'])\<close> yields, \<open>None\<close> where a process has none.
\<close>

definition is_process_running :: "string option list \<Rightarrow> string \<Rightarrow> bool" where
  "is_process_running running process_name =
     (let p = lower (if suffix ''.exe'' (lower process_name) then process_name
                     else process_name @ ''.exe'')
      in list_ex (\<lambda>n. case n of None \<Rightarrow> False | Some name \<Rightarrow> lower name = p) running)"

section \<open>The monitoring loop of \<^verbatim>\<open>main.py\<close>\<close>

text \<open>
  One pass of \<^verbatim>\<open>while not self.stop_flag\<close> in \<^verbatim>\<open>MonitorThread.run\<close> reads the
  fields of the thread and calls the screenshot manager and Qt. What it reads and what
  the calls answer in that pass:
\<close>

record 'p pass =
  stop_at_top :: bool
  capture_enabled :: bool
  idle_slept :: "error option"
  has_screenshot_manager :: bool
  foreground_detection :: bool
  process_names :: "string list"
  captured :: "error + 'p option"
  capture_emitted :: "error option"
  log_emitted :: "error option"
  stop_after_capture :: bool
  wait_rounds :: "error + nat"
  stop_seen_at :: "nat option"
  wait_sleep_raised :: "(nat \<times> error) option"
  handler_log_emitted :: "error option"
  handler_status_emitted :: "error option"
  handler_slept :: "error option"

text \<open>
  \<open>idle_slept\<close> is the exception of \<^verbatim>\<open>self.msleep(100)\<close> on the disabled path, if it
  raises; \<open>captured\<close> what the screenshot manager answers; \<open>capture_emitted\<close> and
  \<open>log_emitted\<close> the exceptions of the two emits after a capture; \<open>wait_rounds\<close> the value
  of \<^verbatim>\<open>int(self.interval * 10)\<close> or its exception; \<open>stop_seen_at\<close> the round of the wait
  in which the stop flag is found set; \<open>wait_sleep_raised\<close> the round of the wait whose
  sleep raises, with the exception. The last three fields are the calls of the handler
  \<^verbatim>\<open>except Exception as e\<close>, lines 100 to 104: building the message and
  \<^verbatim>\<open>log_signal.emit\<close>, then \<^verbatim>\<open>status_signal.emit\<close>, then \<^verbatim>\<open>msleep(1000)\<close>. Nothing guards
  them, so an exception of theirs leaves \<^verbatim>\<open>run\<close>.
\<close>

datatype capture_call = CaptureForegroundWindow "string list" | CaptureScreen

datatype notice = CaptureSucceeded | ThreadError error

datatype kind = StatusInfo | StatusError

datatype 'p event =
    Msleep nat
  | Capture capture_call
  | CaptureSignal 'p
  | LogSignal level notice
  | StatusSignal kind notice

datatype control = Break | Again

text \<open>How \<^verbatim>\<open>run\<close> has come out after the passes given to it.\<close>

datatype ending = Running | Stopped | Died error

text \<open>
  The wait \<^verbatim>\<open>for i in range(int(self.interval * 10))\<close>: \<open>n\<close> rounds of 100 ms, cut
  short at the round in which the stop flag is seen, or ended by the sleep that raises.
\<close>

definition wait :: "'p pass \<Rightarrow> nat \<Rightarrow> 'p event list \<times> (error + control)" where
  "wait p n =
     (let rounds = (case stop_seen_at p of None \<Rightarrow> n | Some k \<Rightarrow> min n k)
      in case wait_sleep_raised p of
           None \<Rightarrow> (replicate rounds (Msleep 100), Inr Again)
         | Some (j, x) \<Rightarrow>
             if j < rounds then (replicate j (Msleep 100), Inl x)
             else (replicate rounds (Msleep 100), Inr Again))"

text \<open>The rest of the \<^verbatim>\<open>try\<close> from \<^verbatim>\<open>if self.stop_flag: break\<close> on.\<close>

definition after_capture :: "'p pass \<Rightarrow> 'p event list \<Rightarrow> 'p event list \<times> (error + control)" where
  "after_capture p evs =
     (if stop_after_capture p then (evs, Inr Break)
      else case wait_rounds p of
             Inl x \<Rightarrow> (evs, Inl x)
           | Inr n \<Rightarrow> (evs @ fst (wait p n), snd (wait p n)))"

text \<open>The call that the pass makes on the screenshot manager.\<close>

definition capture_call_of :: "'p pass \<Rightarrow> capture_call" where
  "capture_call_of p =
     (if foreground_detection p \<and> process_names p \<noteq> []
      then CaptureForegroundWindow (process_names p) else CaptureScreen)"

text \<open>
  The body of the \<^verbatim>\<open>try\<close>: the events so far and either the exception that ended it
  or how the pass goes on.
\<close>

definition try_body :: "'p pass \<Rightarrow> 'p event list \<times> (error + control)" where
  "try_body p =
     (if \<not> capture_enabled p
      then (case idle_slept p of
              Some x \<Rightarrow> ([], Inl x)
            | None \<Rightarrow> ([Msleep 100], Inr Again))
      else
        (let called = (if has_screenshot_manager p then [Capture (capture_call_of p)] else []);
             pixmap = (if has_screenshot_manager p then captured p else Inr None)
         in case pixmap of
              Inl x \<Rightarrow> (called, Inl x)
            | Inr None \<Rightarrow> after_capture p called
            | Inr (Some pm) \<Rightarrow>
                (case capture_emitted p of
                   Some x \<Rightarrow> (called, Inl x)
                 | None \<Rightarrow>
                     (case log_emitted p of
                        Some x \<Rightarrow> (called @ [CaptureSignal pm], Inl x)
                      | None \<Rightarrow>
                          after_capture p
                            (called @ [CaptureSignal pm, LogSignal INFO CaptureSucceeded])))))"

text \<open>
  The handler \<^verbatim>\<open>except Exception as e\<close> for the exception \<open>x\<close> of the body: the log
  signal, the status signal, one second of sleep, in this order. The first of them that
  raises ends the handler with its exception, which nothing catches.
\<close>

definition handler :: "'p pass \<Rightarrow> error \<Rightarrow> 'p event list \<Rightarrow> 'p event list \<times> (error + control)" where
  "handler p x evs =
     (case handler_log_emitted p of
        Some y \<Rightarrow> (evs, Inl y)
      | None \<Rightarrow>
          (case handler_status_emitted p of
             Some y \<Rightarrow> (evs @ [LogSignal ERROR (ThreadError x)], Inl y)
           | None \<Rightarrow>
               (case handler_slept p of
                  Some y \<Rightarrow>
                    (evs @ [LogSignal ERROR (ThreadError x),
                            StatusSignal StatusError (ThreadError x)], Inl y)
                | None \<Rightarrow>
                    (evs @ [LogSignal ERROR (ThreadError x),
                            StatusSignal StatusError (ThreadError x), Msleep 1000],
                     Inr Again))))"

text \<open>
  One pass with its handler. \<open>Inl y\<close> is an exception that leaves the pass, and with it
  the loop and \<^verbatim>\<open>run\<close>.
\<close>

definition pass_once :: "'p pass \<Rightarrow> 'p event list \<times> (error + control)" where
  "pass_once p =
     (case try_body p of
        (evs, Inl x) \<Rightarrow> handler p x evs
      | (evs, Inr c) \<Rightarrow> (evs, Inr c))"

text \<open>
  The loop over the passes that the thread gets to make. The result is the events and
  how the loop came out; a list of passes that ends with the loop still running is the
  beginning of a longer run.
\<close>

fun run_loop :: "'p pass list \<Rightarrow> 'p event list \<times> ending" where
  "run_loop [] = ([], Running)"
| "run_loop (p # ps) =
     (if stop_at_top p then ([], Stopped)
      else case pass_once p of
             (evs, Inl y) \<Rightarrow> (evs, Died y)
           | (evs, Inr Break) \<Rightarrow> (evs, Stopped)
           | (evs, Inr Again) \<Rightarrow> (evs @ fst (run_loop ps), snd (run_loop ps)))"

section \<open>Notions used in the statements\<close>

text \<open>
  What \<^verbatim>\<open>_save_worker\<close> does for one item: the file-system calls it makes, the log
  entries it writes and what it adds to \<^verbatim>\<open>saved_count\<close>, read off the loop body
  run on its own.
\<close>

definition item_fs :: "env \<Rightarrow> item \<Rightarrow> fs_op list" where
  "item_fs e it = fs_ops (snd (save_item e it 0 (init [] None)))"

definition item_log :: "env \<Rightarrow> item \<Rightarrow> (level \<times> message) list" where
  "item_log e it =
     (case log_manager (snd (save_item e it 0 (init [] (Some [])))) of
        None \<Rightarrow> [] | Some entries \<Rightarrow> entries)"

definition item_saved :: "env \<Rightarrow> item \<Rightarrow> nat" where
  "item_saved e it = fst (save_item e it 0 (init [] None))"

text \<open>
  The test \<^verbatim>\<open>image_hash and image_hash in self.image_hashes\<close>; whether the date
  directory of \<^verbatim>\<open>add_to_buffer\<close> can be made, under the save path or, after a
  permission error there, under the fallback root; and the dictionary that
  \<^verbatim>\<open>add_to_buffer\<close> then puts into the queue.
\<close>

definition duplicate :: "env \<Rightarrow> image_data \<Rightarrow> state \<Rightarrow> bool" where
  "duplicate e d s =
     (truthy (calculate_image_hash e d) \<and> calculate_image_hash e d \<in> Some ` image_hashes s)"

definition dir_ready :: "env \<Rightarrow> stamp \<Rightarrow> state \<Rightarrow> bool" where
  "dir_ready e st s =
     (makedirs e (join (save_path s) (folder_name st)) = None \<or>
      makedirs e (join (save_path s) (folder_name st)) = Some PermissionError \<and>
      makedirs e (user_docs e (folder_name st)) = None)"

definition new_item :: "env \<Rightarrow> stamp \<Rightarrow> image_data \<Rightarrow> state \<Rightarrow> item" where
  "new_item e st d s =
     \<lparr>data = d, timestamp = now st,
      filepath =
        join (if makedirs e (join (save_path s) (folder_name st)) = None
              then join (save_path s) (folder_name st) else user_docs e (folder_name st))
          (file_name st),
      date_str = folder_name st, filename = file_name st,
      hash = calculate_image_hash e d\<rparr>"

text \<open>The digests stored with the items that the queue holds.\<close>

definition buffered_hashes :: "state \<Rightarrow> string set" where
  "buffered_hashes s = \<Union> (set_option ` hash ` set (queue (ram_buffer s)))"

text \<open>The calls that write a file.\<close>

fun is_save :: "fs_op \<Rightarrow> bool" where
  "is_save (SavePixmap p d) = True"
| "is_save (MakeDirs p) = False"

text \<open>
  The state between two calls of a sequence: the lock is free, the capacity is
  positive, the queue was made for it and holds no more than it.
\<close>

definition buffer_inv :: "state \<Rightarrow> bool" where
  "buffer_inv s =
     (\<not> lock s \<and> 0 < max_size s \<and> maxsize (ram_buffer s) = max_size s \<and>
      int (length (queue (ram_buffer s))) \<le> max_size s)"

text \<open>An operation that sets no capacity other than a positive one.\<close>

fun positive :: "op \<Rightarrow> bool" where
  "positive (Resize n) = (0 < n)"
| "positive x = True"

text \<open>
  \<^verbatim>\<open>image_hashes.clear()\<close> has run somewhere between the states \<open>s\<close> and \<open>s'\<close>
  of one run: the accesses noted since \<open>s\<close> contain one.
\<close>

definition cleared :: "state \<Rightarrow> state \<Rightarrow> bool" where
  "cleared s s' = (HashClear \<in> set (map snd (drop (length (accesses s)) (accesses s'))))"


text \<open>
  The second half of the loop body of \<^verbatim>\<open>_save_worker\<close> on its own, for the path
  \<open>fp\<close>: the file-system calls it makes and the log entries it writes. And whether
  the first half (the directory) lets the item reach the second.
\<close>

definition write_fs :: "env \<Rightarrow> item \<Rightarrow> path \<Rightarrow> fs_op list" where
  "write_fs e it fp = fs_ops (snd (load_and_save e it fp 0 (init [] None)))"

definition write_log :: "env \<Rightarrow> item \<Rightarrow> path \<Rightarrow> (level \<times> message) list" where
  "write_log e it fp =
     (case log_manager (snd (load_and_save e it fp 0 (init [] (Some [])))) of
        None \<Rightarrow> [] | Some entries \<Rightarrow> entries)"

definition dir_stage_passed :: "env \<Rightarrow> item \<Rightarrow> bool" where
  "dir_stage_passed e it =
     (makedirs e (dirname (filepath it)) = None \<or>
      makedirs e (dirname (filepath it)) = Some PermissionError \<and>
      makedirs e (user_docs e (date_str it)) = None)"

text \<open>
  The three calls of the handler of the monitoring loop return; what the handler then
  adds to the events of a pass whose body raised \<open>x\<close>; and what a pass shows for the
  picture it got, if any, when both emits return.
\<close>

definition handler_returns :: "'p pass \<Rightarrow> bool" where
  "handler_returns p =
     (handler_log_emitted p = None \<and> handler_status_emitted p = None \<and> handler_slept p = None)"

definition backoff :: "error \<Rightarrow> 'p event list" where
  "backoff x =
     [LogSignal ERROR (ThreadError x), StatusSignal StatusError (ThreadError x), Msleep 1000]"

definition delivered :: "'p option \<Rightarrow> 'p event list" where
  "delivered c =
     (case c of None \<Rightarrow> [] | Some pm \<Rightarrow> [CaptureSignal pm, LogSignal INFO CaptureSucceeded])"


section \<open>Sample inputs\<close>

text \<open>
  The statements about single runs use a world in which every system call succeeds
  and \<open>md5_of_samples\<close> gives the MD5 digests of the byte strings \<open>A\<close>, \<open>B\<close> and
  \<open>C\<close> (any other byte string gets the digest of the empty one, which no statement
  relies on), a clock whose readings differ in the file name only, and the object as
  \<^verbatim>\<open>__init__\<close> leaves it, with a log manager and the save path \<open>/s\<close>.
\<close>

definition md5_of_samples :: "string \<Rightarrow> string" where
  "md5_of_samples b =
     (if b = ''A'' then ''7fc56270e7a70fa81a5935b72eacbe29''
      else if b = ''B'' then ''9d5ed678fe57bcca610140957afab571''
      else if b = ''C'' then ''0d61f8370cad1d412f80b84d143e1257''
      else ''d41d8cd98f00b204e9800998ecf8427e'')"

definition calm :: env where
  "calm = \<lparr>home = ''/home/u'', md5_hexdigest = md5_of_samples, makedirs = (\<lambda>p. None),
     loadFromData = (\<lambda>d. Inr True), pixmap_save = (\<lambda>p d. Inr True)\<rparr>"

definition at :: "string \<Rightarrow> stamp" where
  "at hms = \<lparr>now = 0, folder_name = ''d'', file_name = hms @ ''.png''\<rparr>"

text \<open>Capacity 2, then three different images; and the same without the third.\<close>

definition three_adds :: "op list" where
  "three_adds =
     [Resize 2, Add (at ''1'') (ByteArray ''A''), Add (at ''2'') (ByteArray ''B''),
      Add (at ''3'') (ByteArray ''C'')]"

definition two_adds :: "op list" where
  "two_adds = [Resize 2, Add (at ''1'') (ByteArray ''A''), Add (at ''2'') (ByteArray ''B'')]"

definition fresh :: state where
  "fresh = init ''/s'' (Some [])"

text \<open>The state that a list of operations leads to from there, in the calm world.\<close>

definition after :: "op list \<Rightarrow> state" where
  "after ops = (case run calm ops fresh of None \<Rightarrow> fresh | Some s \<Rightarrow> s)"

text \<open>The item that the sample clock and world make of the bytes \<open>b\<close>.\<close>

definition shot :: "string \<Rightarrow> string \<Rightarrow> item" where
  "shot b hms =
     \<lparr>data = ByteArray b, timestamp = 0, filepath = ''/s/d/'' @ hms @ ''.png'', date_str = ''d'',
      filename = hms @ ''.png'', hash = Some (md5_of_samples b)\<rparr>"

text \<open>The fields that the statements about single runs look at.\<close>

definition view :: "state \<Rightarrow> item list \<times> int \<times> int \<times> string set \<times> path \<times> (bool \<times> access) list" where
  "view s =
     (queue (ram_buffer s), maxsize (ram_buffer s), max_size s, image_hashes s, save_path s,
      accesses s)"


text \<open>
  Worlds in which the date directory under the save path cannot be made for lack of
  permission, in which no directory can, in which \<^verbatim>\<open>pixmap.save\<close> raises for the first
  file under the save path, in which it returns \<^verbatim>\<open>False\<close> for that file (what
  \<^verbatim>\<open>QPixmap.save\<close> answers when the file cannot be written), in which the date directory
  is denied and the save under the fallback root raises, and in which the bytes \<open>B\<close>
  are not an image.
\<close>

definition denied :: env where
  "denied = calm\<lparr>makedirs := (\<lambda>p. if p = ''/s/d'' then Some PermissionError else None)\<rparr>"

definition locked_out :: env where
  "locked_out = calm\<lparr>makedirs := (\<lambda>p. Some PermissionError)\<rparr>"

definition read_only :: env where
  "read_only = calm\<lparr>pixmap_save :=
     (\<lambda>p d. if p = ''/s/d/1.png'' then Inl PermissionError else Inr True)\<rparr>"

definition refused :: env where
  "refused = calm\<lparr>pixmap_save := (\<lambda>p d. if p = ''/s/d/1.png'' then Inr False else Inr True)\<rparr>"

definition twice_denied :: env where
  "twice_denied =
     calm\<lparr>makedirs := (\<lambda>p. if p = ''/s/d'' then Some PermissionError else None),
          pixmap_save :=
            (\<lambda>p d. if p = ''/home/u/Documents/SmartBoardScreenshots/d/1.png''
                   then Inl PermissionError else Inr True)\<rparr>"

definition half_decodable :: env where
  "half_decodable = calm\<lparr>loadFromData := (\<lambda>d. Inr (d \<noteq> ByteArray ''B''))\<rparr>"

text \<open>
  A foreground window owned by Word and one owned by Notepad, with the pictures that
  \<^verbatim>\<open>grabWindow\<close> would return.
\<close>

definition word_window :: "nat foreground" where
  "word_window = \<lparr>owner_name = Inr ''WINWORD.EXE'', grab_window = Inr 7\<rparr>"

definition notepad_window :: "nat foreground" where
  "notepad_window = \<lparr>owner_name = Inr ''notepad.exe'', grab_window = Inr 8\<rparr>"

text \<open>
  A pass in which everything goes well: the whole screen is captured, the picture is
  handed on, and the wait is two rounds long. Then passes in which the capture raises,
  in which the hand-over of the picture raises, in which the second sleep of the wait
  raises, in which the capture raises and then the log signal of the handler, and one
  that finds the stop flag set.
\<close>

definition quiet_pass :: "nat pass" where
  "quiet_pass =
     \<lparr>stop_at_top = False, capture_enabled = True, idle_slept = None,
      has_screenshot_manager = True, foreground_detection = False, process_names = [],
      captured = Inr (Some 7), capture_emitted = None, log_emitted = None,
      stop_after_capture = False, wait_rounds = Inr 2, stop_seen_at = None,
      wait_sleep_raised = None, handler_log_emitted = None, handler_status_emitted = None,
      handler_slept = None\<rparr>"

definition failing_pass :: "nat pass" where
  "failing_pass = quiet_pass\<lparr>captured := Inl OtherException\<rparr>"

definition unsent_pass :: "nat pass" where
  "unsent_pass = quiet_pass\<lparr>capture_emitted := Some PermissionError\<rparr>"

definition sleepless_pass :: "nat pass" where
  "sleepless_pass = quiet_pass\<lparr>wait_sleep_raised := Some (1, OtherException)\<rparr>"

definition doomed_pass :: "nat pass" where
  "doomed_pass = failing_pass\<lparr>handler_log_emitted := Some PermissionError\<rparr>"

definition stopping_pass :: "nat pass" where
  "stopping_pass = quiet_pass\<lparr>stop_at_top := True\<rparr>"


section \<open>Properties of the operations\<close>

subsection \<open>The effect lists\<close>

lemma touch_fields [simp]:
  "max_size (touch a s) = max_size s"
  "ram_buffer (touch a s) = ram_buffer s"
  "save_path (touch a s) = save_path s"
  "log_manager (touch a s) = log_manager s"
  "lock (touch a s) = lock s"
  "buffer_count (touch a s) = buffer_count s"
  "image_hashes (touch a s) = image_hashes s"
  "fs_ops (touch a s) = fs_ops s"
  "signals (touch a s) = signals s"
  "accesses (touch a s) = accesses s @ [(lock s, a)]"
  by (simp_all add: touch_def)

lemma emit_fields [simp]:
  "max_size (emit g s) = max_size s"
  "ram_buffer (emit g s) = ram_buffer s"
  "save_path (emit g s) = save_path s"
  "log_manager (emit g s) = log_manager s"
  "lock (emit g s) = lock s"
  "buffer_count (emit g s) = buffer_count s"
  "image_hashes (emit g s) = image_hashes s"
  "fs_ops (emit g s) = fs_ops s"
  "signals (emit g s) = signals s @ [g]"
  "accesses (emit g s) = accesses s"
  by (simp_all add: emit_def)

lemma fs_fields [simp]:
  "max_size (fs x s) = max_size s"
  "ram_buffer (fs x s) = ram_buffer s"
  "save_path (fs x s) = save_path s"
  "log_manager (fs x s) = log_manager s"
  "lock (fs x s) = lock s"
  "buffer_count (fs x s) = buffer_count s"
  "image_hashes (fs x s) = image_hashes s"
  "fs_ops (fs x s) = fs_ops s @ [x]"
  "signals (fs x s) = signals s"
  "accesses (fs x s) = accesses s"
  by (simp_all add: fs_def)

lemma add_log_fields [simp]:
  "max_size (add_log l m s) = max_size s"
  "ram_buffer (add_log l m s) = ram_buffer s"
  "save_path (add_log l m s) = save_path s"
  "log_manager (add_log l m s) = map_option (\<lambda>entries. entries @ [(l, m)]) (log_manager s)"
  "lock (add_log l m s) = lock s"
  "buffer_count (add_log l m s) = buffer_count s"
  "image_hashes (add_log l m s) = image_hashes s"
  "fs_ops (add_log l m s) = fs_ops s"
  "signals (add_log l m s) = signals s"
  "accesses (add_log l m s) = accesses s"
  by (simp_all add: add_log_def split: option.splits)

lemma load_and_save_ram_buffer [simp]:
  "ram_buffer (snd (load_and_save e it fp saved s)) = ram_buffer s"
  by (simp add: load_and_save_def save_failed_def save_done_def add_log_def fs_def Let_def
      split: sum.splits option.splits)

lemma save_item_ram_buffer [simp]:
  "ram_buffer (snd (save_item e it saved s)) = ram_buffer s"
  by (simp add: save_item_def save_failed_def add_log_def fs_def Let_def
      split: option.splits)

lemma load_and_save_fields [simp]:
  "max_size (snd (load_and_save e it fp n s)) = max_size s"
  "save_path (snd (load_and_save e it fp n s)) = save_path s"
  "lock (snd (load_and_save e it fp n s)) = lock s"
  "buffer_count (snd (load_and_save e it fp n s)) = buffer_count s"
  "image_hashes (snd (load_and_save e it fp n s)) = image_hashes s"
  "signals (snd (load_and_save e it fp n s)) = signals s"
  "accesses (snd (load_and_save e it fp n s)) = accesses s"
  by (simp_all add: load_and_save_def save_failed_def save_done_def Let_def
      split: sum.splits option.splits)

lemma save_item_fields [simp]:
  "max_size (snd (save_item e it n s)) = max_size s"
  "save_path (snd (save_item e it n s)) = save_path s"
  "lock (snd (save_item e it n s)) = lock s"
  "buffer_count (snd (save_item e it n s)) = buffer_count s"
  "image_hashes (snd (save_item e it n s)) = image_hashes s"
  "signals (snd (save_item e it n s)) = signals s"
  "accesses (snd (save_item e it n s)) = accesses s"
  by (simp_all add: save_item_def save_failed_def Let_def split: option.splits)


subsection \<open>The flush\<close>

lemma save_item_fs_ops:
  "fs_ops (snd (save_item e it n s)) = fs_ops s @ item_fs e it"
  by (simp add: item_fs_def save_item_def load_and_save_def save_failed_def save_done_def
      init_def Let_def split: option.splits sum.splits)

lemma save_item_log:
  "log_manager (snd (save_item e it n s)) =
     map_option (\<lambda>entries. entries @ item_log e it) (log_manager s)"
  by (cases "log_manager s")
    (simp_all add: item_log_def save_item_def load_and_save_def save_failed_def save_done_def
      init_def Let_def split: option.splits sum.splits)

lemma save_item_count:
  "fst (save_item e it n s) = n + item_saved e it"
  by (simp add: item_saved_def save_item_def load_and_save_def save_failed_def save_done_def
      Let_def split: option.splits sum.splits)

lemma save_loop_queue:
  "ram_buffer (snd (save_loop e n s)) = (ram_buffer s)\<lparr>queue := []\<rparr>"
proof (induction e n s rule: save_loop.induct)
  case (1 e saved s)
  show ?case
  proof (cases "queue (ram_buffer s)")
    case Nil
    then show ?thesis
      by (subst save_loop.simps) (simp add: empty_q_def qsize_def)
  next
    case (Cons it rest)
    then have g: "get (ram_buffer s) = Some (it, (ram_buffer s)\<lparr>queue := rest\<rparr>)"
      and ne: "\<not> empty_q (ram_buffer s)"
      by (simp_all add: get_def empty_q_def qsize_def)
    from "1.IH" [OF ne g refl refl] show ?thesis
      by (subst save_loop.simps) (simp add: ne g Let_def)
  qed
qed


lemma save_item_closed:
  "save_item e it n s =
     (n + item_saved e it,
      s\<lparr>log_manager := map_option (\<lambda>entries. entries @ item_log e it) (log_manager s),
        fs_ops := fs_ops s @ item_fs e it\<rparr>)"
  by (cases "log_manager s")
    (simp_all add: item_saved_def item_log_def item_fs_def save_item_def load_and_save_def
      save_failed_def save_done_def add_log_def fs_def init_def Let_def
      split: option.splits sum.splits)

lemma save_loop_Nil:
  "queue (ram_buffer s) = [] \<Longrightarrow> save_loop e n s = (n, s)"
  by (subst save_loop.simps) (simp add: empty_q_def qsize_def)

lemma save_loop_Cons:
  "queue (ram_buffer s) = it # rest \<Longrightarrow>
   save_loop e n s =
     (let r = save_item e it n (touch QueueGet (s\<lparr>ram_buffer := (ram_buffer s)\<lparr>queue := rest\<rparr>\<rparr>))
      in save_loop e (fst r) (snd r))"
  by (subst save_loop.simps) (simp add: empty_q_def qsize_def get_def)

lemma save_loop_closed:
  "queue (ram_buffer s) = xs \<Longrightarrow>
   save_loop e n s =
     (n + sum_list (map (item_saved e) xs),
      s\<lparr>ram_buffer := (ram_buffer s)\<lparr>queue := []\<rparr>,
        log_manager := map_option (\<lambda>entries. entries @ concat (map (item_log e) xs)) (log_manager s),
        fs_ops := fs_ops s @ concat (map (item_fs e) xs),
        accesses := accesses s @ replicate (length xs) (lock s, QueueGet)\<rparr>)"
proof (induction xs arbitrary: n s)
  case Nil
  then show ?case
    by (cases "log_manager s") (simp_all add: save_loop_Nil)
next
  case (Cons it rest)
  let ?s1 = "touch QueueGet (s\<lparr>ram_buffer := (ram_buffer s)\<lparr>queue := rest\<rparr>\<rparr>)"
  let ?r = "save_item e it n ?s1"
  have q: "queue (ram_buffer (snd ?r)) = rest"
    by simp
  show ?case
    unfolding save_loop_Cons [OF Cons.prems] Let_def Cons.IH [OF q]
    by (cases "log_manager s")
      (simp_all add: save_item_closed touch_def replicate_append_same)
qed


lemma save_worker_empty:
  "queue (ram_buffer s) = [] \<Longrightarrow> save_worker e s = s"
  by (simp add: save_worker_def empty_q_def qsize_def)

lemma save_worker_closed:
  assumes "queue (ram_buffer s) = xs" and "xs \<noteq> []"
  shows "save_worker e s =
     s\<lparr>ram_buffer := (ram_buffer s)\<lparr>queue := []\<rparr>,
       log_manager :=
         map_option
           (\<lambda>entries. entries @ concat (map (item_log e) xs) @
              (if 0 < sum_list (map (item_saved e) xs)
               then [(INFO, SavedCount (sum_list (map (item_saved e) xs)))] else []))
           (log_manager s),
       buffer_count := 0,
       image_hashes := {},
       fs_ops := fs_ops s @ concat (map (item_fs e) xs),
       signals := signals s @ [BufferUpdated 0 (max_size s)],
       accesses := accesses s @ replicate (length xs) (lock s, QueueGet) @
                   [(lock s, CountSet), (lock s, HashClear)]\<rparr>"
proof -
  have ne: "\<not> empty_q (ram_buffer s)"
    using assms by (simp add: empty_q_def qsize_def)
  show ?thesis
    unfolding save_worker_def Let_def save_loop_closed [OF assms(1)]
    by (cases "log_manager s")
      (simp_all add: ne touch_def emit_def add_log_def qsize_def)
qed


subsection \<open>Adding\<close>

lemma full_imp_nonempty: "full q \<Longrightarrow> queue q \<noteq> []"
  by (auto simp: full_def qsize_def)

lemma enqueue_not_full:
  assumes "\<not> full (ram_buffer s)"
  shows "enqueue st d h dir s =
     (Returned,
      s\<lparr>ram_buffer := (ram_buffer s)\<lparr>queue := queue (ram_buffer s) @
           [\<lparr>data = d, timestamp = now st, filepath = join dir (file_name st),
             date_str = folder_name st, filename = file_name st, hash = h\<rparr>]\<rparr>,
        log_manager :=
          map_option (\<lambda>entries. entries @
            [(INFO, AddedToBuffer (int (length (queue (ram_buffer s))) + 1) (max_size s))])
            (log_manager s),
        buffer_count := int (length (queue (ram_buffer s))) + 1,
        signals := signals s @
          [BufferUpdated (int (length (queue (ram_buffer s))) + 1) (max_size s)],
        accesses := accesses s @ [(lock s, QueuePut), (lock s, CountSet)]\<rparr>)"
  using assms
  by (cases "log_manager s")
    (simp_all add: enqueue_def put_item_def put_def touch_def emit_def add_log_def qsize_def
      Let_def)


lemma save_worker_fields:
  "queue (ram_buffer (save_worker e s)) = []"
  "maxsize (ram_buffer (save_worker e s)) = maxsize (ram_buffer s)"
  "max_size (save_worker e s) = max_size s"
  "save_path (save_worker e s) = save_path s"
  "lock (save_worker e s) = lock s"
  "image_hashes (save_worker e s) = (if queue (ram_buffer s) = [] then image_hashes s else {})"
  "buffer_count (save_worker e s) = (if queue (ram_buffer s) = [] then buffer_count s else 0)"
  "fs_ops (save_worker e s) = fs_ops s @ concat (map (item_fs e) (queue (ram_buffer s)))"
  using save_worker_closed [of s "queue (ram_buffer s)" e] save_worker_empty [of s e]
  by (cases "queue (ram_buffer s) = []"; simp)+

lemma after_flush_not_full:
  "full (ram_buffer s) \<Longrightarrow> \<not> full (ram_buffer (save_worker e s'))"
  by (simp add: full_def qsize_def save_worker_fields)

lemma add_queue:
  assumes "\<not> lock s"
  shows "queue (ram_buffer (snd (add_to_buffer e st d s))) =
     (if duplicate e d s then queue (ram_buffer s)
      else (if full (ram_buffer s) then [] else queue (ram_buffer s)) @
           (if dir_ready e st s then [new_item e st d s] else []))"
proof (cases "full (ram_buffer s)")
  case True
  note nf = after_flush_not_full [OF True]
  show ?thesis
    using assms True
    by (simp add: add_to_buffer_def with_lock_def add_to_buffer_body_def duplicate_def
        dir_ready_def new_item_def Let_def enqueue_not_full nf save_worker_fields
        split: option.splits)
next
  case False
  then show ?thesis
    using assms
    by (simp add: add_to_buffer_def with_lock_def add_to_buffer_body_def duplicate_def
        dir_ready_def new_item_def Let_def enqueue_not_full
        split: option.splits)
qed

lemma add_hashes:
  assumes "\<not> lock s"
  shows "image_hashes (snd (add_to_buffer e st d s)) =
     (if duplicate e d s then image_hashes s
      else if full (ram_buffer s) then {}
      else if truthy (calculate_image_hash e d)
           then image_hashes s \<union> set_option (calculate_image_hash e d)
           else image_hashes s)"
proof (cases "full (ram_buffer s)")
  case True
  note nf = after_flush_not_full [OF True]
  note ne = full_imp_nonempty [OF True]
  show ?thesis
    using assms True ne
    by (simp add: add_to_buffer_def with_lock_def add_to_buffer_body_def duplicate_def
        Let_def enqueue_not_full nf save_worker_fields
        split: option.splits)
next
  case False
  then show ?thesis
    using assms
    by (simp add: add_to_buffer_def with_lock_def add_to_buffer_body_def duplicate_def
        Let_def enqueue_not_full
        split: option.splits)
qed

subsection \<open>Resizing\<close>

lemma put_all_fits:
  "maxsize (ram_buffer s) \<le> 0 \<or>
     int (length (queue (ram_buffer s))) + int (length xs) \<le> maxsize (ram_buffer s) \<Longrightarrow>
   put_all xs s =
     (Returned,
      s\<lparr>ram_buffer := (ram_buffer s)\<lparr>queue := queue (ram_buffer s) @ xs\<rparr>,
        accesses := accesses s @ replicate (length xs) (lock s, QueuePut)\<rparr>)"
proof (induction xs arbitrary: s)
  case Nil
  then show ?case by simp
next
  case (Cons x xs)
  have nf: "\<not> full (ram_buffer s)"
    using Cons.prems by (auto simp: full_def qsize_def)
  let ?s1 = "touch QueuePut (s\<lparr>ram_buffer := (ram_buffer s)\<lparr>queue := queue (ram_buffer s) @ [x]\<rparr>\<rparr>)"
  have step1: "put_item x s = (Returned, ?s1)"
    using nf by (simp add: put_item_def put_def)
  have fits: "maxsize (ram_buffer ?s1) \<le> 0 \<or>
     int (length (queue (ram_buffer ?s1))) + int (length xs) \<le> maxsize (ram_buffer ?s1)"
    using Cons.prems by auto
  have "put_all (x # xs) s = put_all xs ?s1"
    by (simp add: step1)
  also note Cons.IH [OF fits]
  finally show ?case
    by (simp add: touch_def)
qed

lemma length_slice_to:
  "0 \<le> n \<Longrightarrow> int (length (slice_to n xs)) \<le> n"
  by (simp add: slice_to_def)

lemma set_buffer_size_closed:
  assumes "\<not> lock s"
  shows "set_buffer_size n s =
     (Returned,
      s\<lparr>max_size := n,
        ram_buffer := \<lparr>maxsize = n, queue = slice_to n (queue (ram_buffer s))\<rparr>,
        accesses := accesses s @ [(True, MaxSizeSet), (True, QueueNew)] @
          replicate (length (slice_to n (queue (ram_buffer s)))) (True, QueuePut)\<rparr>)"
proof -
  let ?s2 = "touch QueueNew ((touch MaxSizeSet (s\<lparr>lock := True, max_size := n\<rparr>))\<lparr>ram_buffer := Queue n\<rparr>)"
  have fits: "maxsize (ram_buffer ?s2) \<le> 0 \<or>
     int (length (queue (ram_buffer ?s2))) + int (length (slice_to n (queue (ram_buffer s))))
       \<le> maxsize (ram_buffer ?s2)"
    using length_slice_to [of n "queue (ram_buffer s)"]
    by (cases "0 \<le> n") (simp_all add: Queue_def)
  have "set_buffer_size_body n (s\<lparr>lock := True\<rparr>) =
      put_all (slice_to n (queue (ram_buffer s))) ?s2"
    by (simp add: set_buffer_size_body_def Let_def)
  also note put_all_fits [OF fits]
  finally have body: "set_buffer_size_body n (s\<lparr>lock := True\<rparr>) =
     (Returned,
      ?s2\<lparr>ram_buffer := (ram_buffer ?s2)\<lparr>queue := queue (ram_buffer ?s2) @
              slice_to n (queue (ram_buffer s))\<rparr>,
          accesses := accesses ?s2 @
            replicate (length (slice_to n (queue (ram_buffer s)))) (lock ?s2, QueuePut)\<rparr>)" .
  show ?thesis
    unfolding set_buffer_size_def with_lock_def Let_def body
    using assms by (cases s) (simp add: touch_def Queue_def)
qed

subsection \<open>What a call of \<^verbatim>\<open>add_to_buffer\<close> leaves alone, and what it returns\<close>

lemma add_static:
  assumes "\<not> lock s"
  shows "lock (snd (add_to_buffer e st d s)) = False"
    and "maxsize (ram_buffer (snd (add_to_buffer e st d s))) = maxsize (ram_buffer s)"
    and "max_size (snd (add_to_buffer e st d s)) = max_size s"
    and "save_path (snd (add_to_buffer e st d s)) = save_path s"
    and "fst (add_to_buffer e st d s) \<noteq> Blocked"
proof -
  have nf: "\<not> full (ram_buffer (save_worker e s'))" if "full (ram_buffer s)" for s'
    using that by (rule after_flush_not_full)
  show "lock (snd (add_to_buffer e st d s)) = False"
    using assms by (simp add: add_to_buffer_def with_lock_def Let_def)
  show "maxsize (ram_buffer (snd (add_to_buffer e st d s))) = maxsize (ram_buffer s)"
    using assms nf
    by (cases "full (ram_buffer s)")
      (simp_all add: add_to_buffer_def with_lock_def add_to_buffer_body_def Let_def
        enqueue_not_full save_worker_fields split: option.splits)
  show "max_size (snd (add_to_buffer e st d s)) = max_size s"
    using assms nf
    by (cases "full (ram_buffer s)")
      (simp_all add: add_to_buffer_def with_lock_def add_to_buffer_body_def Let_def
        enqueue_not_full save_worker_fields split: option.splits)
  show "save_path (snd (add_to_buffer e st d s)) = save_path s"
    using assms nf
    by (cases "full (ram_buffer s)")
      (simp_all add: add_to_buffer_def with_lock_def add_to_buffer_body_def Let_def
        enqueue_not_full save_worker_fields split: option.splits)
  show "fst (add_to_buffer e st d s) \<noteq> Blocked"
    using assms nf
    by (cases "full (ram_buffer s)")
      (simp_all add: add_to_buffer_def with_lock_def add_to_buffer_body_def Let_def
        enqueue_not_full save_worker_fields split: option.splits)
qed

lemma add_returns:
  assumes "\<not> lock s" and "duplicate e d s \<or> dir_ready e st s"
  shows "fst (add_to_buffer e st d s) = Returned"
proof -
  have nf: "\<not> full (ram_buffer (save_worker e s'))" if "full (ram_buffer s)" for s'
    using that by (rule after_flush_not_full)
  show ?thesis
    using assms nf
    by (cases "full (ram_buffer s)")
      (auto simp: add_to_buffer_def with_lock_def add_to_buffer_body_def Let_def
        duplicate_def dir_ready_def enqueue_not_full save_worker_fields split: option.splits)
qed

lemma add_fs_ops:
  assumes "\<not> lock s"
  shows "fs_ops (snd (add_to_buffer e st d s)) =
     fs_ops s @
     (if duplicate e d s then []
      else (if full (ram_buffer s) then concat (map (item_fs e) (queue (ram_buffer s))) else []) @
           [MakeDirs (join (save_path s) (folder_name st))] @
           (if makedirs e (join (save_path s) (folder_name st)) = Some PermissionError
            then [MakeDirs (user_docs e (folder_name st))] else []))"
proof -
  have nf: "\<not> full (ram_buffer (save_worker e s'))" if "full (ram_buffer s)" for s'
    using that by (rule after_flush_not_full)
  show ?thesis
    using assms nf
    by (cases "full (ram_buffer s)")
      (simp_all add: add_to_buffer_def with_lock_def add_to_buffer_body_def Let_def
        duplicate_def enqueue_not_full save_worker_fields split: option.splits)
qed

lemma save_worker_accesses:
  "accesses (save_worker e s) =
     accesses s @
     (if queue (ram_buffer s) = [] then []
      else replicate (length (queue (ram_buffer s))) (lock s, QueueGet) @
           [(lock s, CountSet), (lock s, HashClear)])"
  using save_worker_closed [of s "queue (ram_buffer s)" e] save_worker_empty [of s e]
  by (cases "queue (ram_buffer s) = []") simp_all

lemma add_accesses:
  assumes "\<not> lock s"
  shows "accesses (snd (add_to_buffer e st d s)) =
     accesses s @
     (if duplicate e d s then []
      else (if truthy (calculate_image_hash e d) then [(True, HashAdd)] else []) @
           (if full (ram_buffer s)
            then replicate (length (queue (ram_buffer s))) (True, QueueGet) @
                 [(True, CountSet), (True, HashClear)]
            else []) @
           (if dir_ready e st s then [(True, QueuePut), (True, CountSet)] else []))"
proof -
  have nf: "\<not> full (ram_buffer (save_worker e s'))" if "full (ram_buffer s)" for s'
    using that by (rule after_flush_not_full)
  have ne: "queue (ram_buffer s) \<noteq> []" if "full (ram_buffer s)"
    using that by (rule full_imp_nonempty)
  show ?thesis
    using assms nf ne
    by (cases "full (ram_buffer s)")
      (simp_all add: add_to_buffer_def with_lock_def add_to_buffer_body_def Let_def
        duplicate_def dir_ready_def enqueue_not_full save_worker_fields save_worker_accesses
        split: option.splits)
qed

subsection \<open>Sequences\<close>

lemma step_static:
  assumes "\<not> lock s"
  shows "fst (step e x s) \<noteq> Blocked" and "\<not> lock (snd (step e x s))"
  using assms
  by (cases x; simp add: add_static set_buffer_size_closed save_worker_fields)+

lemma run_Cons:
  "\<not> lock s \<Longrightarrow> run e (x # xs) s = run e xs (snd (step e x s))"
  using step_static(1) [of s e x]
  by (cases "step e x s"; cases "fst (step e x s)"; simp)

lemma run_append:
  "run e (xs @ ys) s = (case run e xs s of None \<Rightarrow> None | Some s' \<Rightarrow> run e ys s')"
proof (induction xs arbitrary: s)
  case Nil
  then show ?case by simp
next
  case (Cons x xs)
  show ?case
    by (cases "step e x s"; cases "fst (step e x s)") (simp_all add: Cons.IH)
qed

declare run.simps(2) [simp del]

lemma run_total:
  "\<not> lock s \<Longrightarrow> \<exists>s'. run e ops s = Some s' \<and> \<not> lock s'"
proof (induction ops arbitrary: s)
  case Nil
  then show ?case by simp
next
  case (Cons x xs)
  have "\<not> lock (snd (step e x s))"
    using Cons.prems by (rule step_static)
  then show ?case
    using Cons.IH [of "snd (step e x s)"] Cons.prems
    by (simp add: run_Cons)
qed

subsection \<open>The capacity\<close>

lemma step_inv:
  assumes "buffer_inv s" and "positive x"
  shows "buffer_inv (snd (step e x s))"
proof (cases x)
  case (Add st d)
  have l: "\<not> lock s" using assms(1) by (simp add: buffer_inv_def)
  show ?thesis
    using assms(1)
    by (auto simp: Add buffer_inv_def add_static [OF l] add_queue [OF l] full_def qsize_def)
next
  case DrainAll
  then show ?thesis
    using assms(1) by (simp add: buffer_inv_def save_worker_fields)
next
  case (Resize n)
  have l: "\<not> lock s" using assms(1) by (simp add: buffer_inv_def)
  show ?thesis
    using assms(2) l by (auto simp: Resize buffer_inv_def set_buffer_size_closed [OF l] slice_to_def)
qed

lemma run_inv:
  "buffer_inv s \<Longrightarrow> list_all positive ops \<Longrightarrow> \<exists>s'. run e ops s = Some s' \<and> buffer_inv s'"
proof (induction ops arbitrary: s)
  case Nil
  then show ?case by simp
next
  case (Cons x xs)
  have l: "\<not> lock s" using Cons.prems(1) by (simp add: buffer_inv_def)
  have "buffer_inv (snd (step e x s))"
    using Cons.prems by (simp add: step_inv)
  then show ?case
    using Cons.IH [of "snd (step e x s)"] Cons.prems(2)
    by (simp add: run_Cons [OF l])
qed


subsection \<open>What stays in \<^verbatim>\<open>image_hashes\<close>\<close>

lemma step_hashes:
  assumes "\<not> lock s"
  shows "\<exists>new. accesses (snd (step e x s)) = accesses s @ new \<and>
           (HashClear \<notin> set (map snd new) \<longrightarrow> image_hashes s \<subseteq> image_hashes (snd (step e x s)))"
proof (cases x)
  case (Add st d)
  show ?thesis
    unfolding Add step.simps add_accesses [OF assms] add_hashes [OF assms]
    by (cases "duplicate e d s"; cases "full (ram_buffer s)"; cases "dir_ready e st s";
        cases "truthy (calculate_image_hash e d)") auto
next
  case DrainAll
  then show ?thesis
    by (auto simp: save_worker_accesses save_worker_fields)
next
  case (Resize n)
  then show ?thesis
    by (simp add: set_buffer_size_closed [OF assms])
qed

lemma run_hashes:
  "\<not> lock s \<Longrightarrow> run e ops s = Some s' \<Longrightarrow>
   \<exists>new. accesses s' = accesses s @ new \<and>
     (HashClear \<notin> set (map snd new) \<longrightarrow> image_hashes s \<subseteq> image_hashes s')"
proof (induction ops arbitrary: s)
  case Nil
  then show ?case by simp
next
  case (Cons x xs)
  let ?s1 = "snd (step e x s)"
  have l1: "\<not> lock ?s1"
    using Cons.prems(1) by (rule step_static)
  have r: "run e xs ?s1 = Some s'"
    using Cons.prems by (simp add: run_Cons)
  obtain new1 where n1: "accesses ?s1 = accesses s @ new1"
    "HashClear \<notin> set (map snd new1) \<longrightarrow> image_hashes s \<subseteq> image_hashes ?s1"
    using step_hashes [OF Cons.prems(1), of e x] by blast
  obtain new2 where n2: "accesses s' = accesses ?s1 @ new2"
    "HashClear \<notin> set (map snd new2) \<longrightarrow> image_hashes ?s1 \<subseteq> image_hashes s'"
    using Cons.IH [OF l1 r] by blast
  show ?case
    using n1 n2 by (intro exI [of _ "new1 @ new2"]) auto
qed

lemma first_add_hash:
  assumes "\<not> lock s" and "md5_hexdigest e b \<noteq> []"
  shows "\<exists>new. accesses (snd (add_to_buffer e st (ByteArray b) s)) = accesses s @ new \<and>
     (HashClear \<notin> set (map snd new) \<longrightarrow>
        md5_hexdigest e b \<in> image_hashes (snd (add_to_buffer e st (ByteArray b) s)))"
  unfolding add_accesses [OF assms(1)] add_hashes [OF assms(1)]
  using assms(2)
  by (cases "duplicate e (ByteArray b) s"; cases "full (ram_buffer s)";
      cases "dir_ready e st s")
    (auto simp: duplicate_def calculate_image_hash_def truthy_def)

lemma add_duplicate:
  assumes "\<not> lock s" and "duplicate e d s"
  shows "add_to_buffer e st d s = (Returned, add_log INFO DuplicateSkipped s)"
  using assms
  by (cases s)
    (simp add: add_to_buffer_def with_lock_def add_to_buffer_body_def Let_def duplicate_def
      add_log_def split: option.splits)


text \<open>
  A second call with the same bytes is a duplicate as long as the set has not been
  cleared since the first call began.
\<close>

lemma duplicate_when_not_cleared:
  assumes "\<not> lock s" and "md5_hexdigest e b \<noteq> []"
    and "run e (Add st (ByteArray b) # between) s = Some s'"
    and "\<not> cleared s s'"
  shows "add_to_buffer e st' (ByteArray b) s' = (Returned, add_log INFO DuplicateSkipped s') \<and>
         ram_buffer (add_log INFO DuplicateSkipped s') = ram_buffer s' \<and>
         image_hashes (add_log INFO DuplicateSkipped s') = image_hashes s' \<and>
         buffer_count (add_log INFO DuplicateSkipped s') = buffer_count s' \<and>
         max_size (add_log INFO DuplicateSkipped s') = max_size s' \<and>
         fs_ops (add_log INFO DuplicateSkipped s') = fs_ops s' \<and>
         signals (add_log INFO DuplicateSkipped s') = signals s'"
proof -
  let ?s1 = "snd (add_to_buffer e st (ByteArray b) s)"
  have l1: "\<not> lock ?s1"
    using assms(1) by (simp add: add_static)
  have r: "run e between ?s1 = Some s'"
    using assms(1,3) by (simp add: run_Cons)
  obtain new1 where n1: "accesses ?s1 = accesses s @ new1"
    "HashClear \<notin> set (map snd new1) \<longrightarrow> md5_hexdigest e b \<in> image_hashes ?s1"
    using first_add_hash [OF assms(1,2), of st] by blast
  obtain new2 where n2: "accesses s' = accesses ?s1 @ new2"
    "HashClear \<notin> set (map snd new2) \<longrightarrow> image_hashes ?s1 \<subseteq> image_hashes s'"
    using run_hashes [OF l1 r] by blast
  have "md5_hexdigest e b \<in> image_hashes s'"
    using assms(4) n1 n2 by (auto simp: cleared_def)
  then have d: "duplicate e (ByteArray b) s'"
    using assms(2) by (simp add: duplicate_def calculate_image_hash_def truthy_def)
  have l': "\<not> lock s'"
    using run_total [OF l1, of e between] r by simp
  show ?thesis
    by (simp add: add_duplicate [OF l' d])
qed


subsection \<open>The sample world\<close>

lemma calm_answers:
  "home calm = ''/home/u''" "md5_hexdigest calm = md5_of_samples" "makedirs calm p = None"
  "loadFromData calm d = Inr True" "pixmap_save calm p d = Inr True"
  by (simp_all add: calm_def)

lemma at_fields:
  "now (at hms) = 0" "folder_name (at hms) = ''d''" "file_name (at hms) = hms @ ''.png''"
  by (simp_all add: at_def)

lemma calm_item_fs:
  "item_fs calm \<lparr>data = d, timestamp = t, filepath = ''/s/d/'' @ f, date_str = ''d'', filename = f', hash = h\<rparr>
    = [MakeDirs (dirname (''/s/d/'' @ f)), SavePixmap (''/s/d/'' @ f) d]"
  by (simp add: item_fs_def save_item_def load_and_save_def save_done_def calm_answers Let_def init_def)

lemmas eval_defs = duplicate_def dir_ready_def new_item_def calculate_image_hash_def truthy_def
  full_def qsize_def join_def slice_to_def

lemma fresh_fields:
  "\<not> lock fresh" "queue (ram_buffer fresh) = []" "maxsize (ram_buffer fresh) = 100"
  "max_size fresh = 100" "image_hashes fresh = {}" "save_path fresh = ''/s''"
  "fs_ops fresh = []" "accesses fresh = []"
  by (simp_all add: fresh_def init_def Queue_def)

lemma run_after: "run calm ops fresh = Some (after ops)"
  using run_total [OF fresh_fields(1), of calm ops] by (auto simp: after_def)

lemma after_lock: "\<not> lock (after ops)"
  using run_total [OF fresh_fields(1), of calm ops] by (auto simp: after_def)

lemma after_Nil: "after [] = fresh"
  by (simp add: after_def)

lemma after_snoc: "after (ops @ [x]) = snd (step calm x (after ops))"
proof -
  have "run calm (ops @ [x]) fresh = run calm [x] (after ops)"
    by (simp add: run_append run_after)
  also have "\<dots> = Some (snd (step calm x (after ops)))"
    using after_lock [of ops] by (simp add: run_Cons)
  finally show ?thesis
    by (simp add: after_def)
qed

lemma sample_add:
  assumes "s' = snd (add_to_buffer calm (at hms) (ByteArray b) s)"
    and "\<not> lock s" and "save_path s = ''/s''" and "hd (hms @ ''.png'') \<noteq> CHR ''/''"
  shows "queue (ram_buffer s') =
           (if md5_of_samples b \<in> image_hashes s then queue (ram_buffer s)
            else (if full (ram_buffer s) then [] else queue (ram_buffer s)) @ [shot b hms])"
    and "image_hashes s' =
           (if md5_of_samples b \<in> image_hashes s then image_hashes s
            else if full (ram_buffer s) then {}
            else insert (md5_of_samples b) (image_hashes s))"
    and "maxsize (ram_buffer s') = maxsize (ram_buffer s)"
    and "max_size s' = max_size s"
    and "save_path s' = ''/s''"
    and "\<not> lock s'"
    and "accesses s' = accesses s @
           (if md5_of_samples b \<in> image_hashes s then []
            else [(True, HashAdd)] @
              (if full (ram_buffer s)
               then replicate (length (queue (ram_buffer s))) (True, QueueGet) @
                    [(True, CountSet), (True, HashClear)]
               else []) @
              [(True, QueuePut), (True, CountSet)])"
    and "fs_ops s' = fs_ops s @
           (if md5_of_samples b \<in> image_hashes s then []
            else (if full (ram_buffer s) then concat (map (item_fs calm) (queue (ram_buffer s)))
                  else []) @ [MakeDirs ''/s/d''])"
proof -
  have t: "truthy (Some (md5_of_samples b))"
    by (simp add: truthy_def md5_of_samples_def)
  have dup: "duplicate calm (ByteArray b) s \<longleftrightarrow> md5_of_samples b \<in> image_hashes s"
    using t by (auto simp: duplicate_def calculate_image_hash_def calm_answers)
  have rdy: "dir_ready calm (at hms) s"
    by (simp add: dir_ready_def calm_answers)
  have it: "new_item calm (at hms) (ByteArray b) s = shot b hms"
    by (simp add: new_item_def shot_def calm_answers at_fields assms(3,4) join_def
        calculate_image_hash_def)
  note l = assms(2)
  show "queue (ram_buffer s') =
           (if md5_of_samples b \<in> image_hashes s then queue (ram_buffer s)
            else (if full (ram_buffer s) then [] else queue (ram_buffer s)) @ [shot b hms])"
    by (simp add: assms(1) add_queue [OF l] dup rdy it)
  show "image_hashes s' =
           (if md5_of_samples b \<in> image_hashes s then image_hashes s
            else if full (ram_buffer s) then {}
            else insert (md5_of_samples b) (image_hashes s))"
    using t by (simp add: assms(1) add_hashes [OF l] dup calculate_image_hash_def calm_answers)
  show "maxsize (ram_buffer s') = maxsize (ram_buffer s)" "max_size s' = max_size s"
    "save_path s' = ''/s''" "\<not> lock s'"
    by (simp_all add: assms(1,3) add_static [OF l])
  show "accesses s' = accesses s @
           (if md5_of_samples b \<in> image_hashes s then []
            else [(True, HashAdd)] @
              (if full (ram_buffer s)
               then replicate (length (queue (ram_buffer s))) (True, QueueGet) @
                    [(True, CountSet), (True, HashClear)]
               else []) @
              [(True, QueuePut), (True, CountSet)])"
    using t by (simp add: assms(1) add_accesses [OF l] dup rdy calculate_image_hash_def calm_answers)
  show "fs_ops s' = fs_ops s @
           (if md5_of_samples b \<in> image_hashes s then []
            else (if full (ram_buffer s) then concat (map (item_fs calm) (queue (ram_buffer s)))
                  else []) @ [MakeDirs ''/s/d''])"
    by (simp add: assms(1) add_fs_ops [OF l] dup calm_answers at_fields assms(3) join_def)
qed



lemma view_fresh: "view fresh = ([], 100, 100, {}, ''/s'', [])"
  by (simp add: view_def fresh_fields)

lemma view_add:
  assumes "view s = (q, m, c, H, ''/s'', acc)" and "\<not> lock s"
    and "hd (hms @ ''.png'') \<noteq> CHR ''/''"
  shows "view (snd (add_to_buffer calm (at hms) (ByteArray b) s)) =
     (if md5_of_samples b \<in> H then (q, m, c, H, ''/s'', acc)
      else if 0 < m \<and> m \<le> int (length q)
      then ([shot b hms], m, c, {}, ''/s'',
            acc @ [(True, HashAdd)] @ replicate (length q) (True, QueueGet) @
            [(True, CountSet), (True, HashClear), (True, QueuePut), (True, CountSet)])
      else (q @ [shot b hms], m, c, insert (md5_of_samples b) H, ''/s'',
            acc @ [(True, HashAdd), (True, QueuePut), (True, CountSet)]))"
proof -
  have p: "save_path s = ''/s''"
    using assms(1) by (simp add: view_def)
  note f = sample_add [OF refl assms(2) p assms(3), of b]
  show ?thesis
    using assms(1) by (simp add: view_def f full_def qsize_def)
qed

lemma view_resize:
  assumes "view s = (q, m, c, H, p, acc)" and "\<not> lock s"
  shows "view (snd (set_buffer_size n s)) =
     (slice_to n q, n, n, H, p,
      acc @ [(True, MaxSizeSet), (True, QueueNew)] @
      replicate (length (slice_to n q)) (True, QueuePut))"
  using assms(1) by (simp add: view_def set_buffer_size_closed [OF assms(2)])

lemma view_drain:
  assumes "view s = (q, m, c, H, p, acc)"
  shows "view (save_worker e s) =
     (if q = [] then (q, m, c, H, p, acc)
      else ([], m, c, {}, p,
            acc @ replicate (length q) (lock s, QueueGet) @
            [(lock s, CountSet), (lock s, HashClear)]))"
  using assms by (auto simp: view_def save_worker_fields save_worker_accesses)

lemma view_after_resize:
  "view (after [Resize 2]) = ([], 2, 2, {}, ''/s'', [(True, MaxSizeSet), (True, QueueNew)])"
  using after_snoc [of "[]" "Resize 2"] view_resize [OF view_fresh fresh_fields(1), of 2]
  by (simp add: after_Nil slice_to_def)

lemma view_after_one:
  "view (after [Resize 2, Add (at ''1'') (ByteArray ''A'')]) =
     ([shot ''A'' ''1''], 2, 2, {''7fc56270e7a70fa81a5935b72eacbe29''}, ''/s'',
      [(True, MaxSizeSet), (True, QueueNew), (True, HashAdd), (True, QueuePut), (True, CountSet)])"
  using after_snoc [of "[Resize 2]" "Add (at ''1'') (ByteArray ''A'')"]
    view_add [OF view_after_resize after_lock, of "''1''" "''A''"]
  by (simp add: md5_of_samples_def)

lemma view_after_two:
  "view (after two_adds) =
     ([shot ''A'' ''1'', shot ''B'' ''2''], 2, 2,
      {''7fc56270e7a70fa81a5935b72eacbe29'', ''9d5ed678fe57bcca610140957afab571''}, ''/s'',
      [(True, MaxSizeSet), (True, QueueNew), (True, HashAdd), (True, QueuePut), (True, CountSet),
       (True, HashAdd), (True, QueuePut), (True, CountSet)])"
  using after_snoc [of "[Resize 2, Add (at ''1'') (ByteArray ''A'')]" "Add (at ''2'') (ByteArray ''B'')"]
    view_add [OF view_after_one after_lock, of "''2''" "''B''"]
  by (simp add: md5_of_samples_def two_adds_def insert_commute)

lemma view_after_three:
  "view (after three_adds) =
     ([shot ''C'' ''3''], 2, 2, {}, ''/s'',
      [(True, MaxSizeSet), (True, QueueNew), (True, HashAdd), (True, QueuePut), (True, CountSet),
       (True, HashAdd), (True, QueuePut), (True, CountSet),
       (True, HashAdd), (True, QueueGet), (True, QueueGet), (True, CountSet), (True, HashClear),
       (True, QueuePut), (True, CountSet)])"
  using after_snoc [of two_adds "Add (at ''3'') (ByteArray ''C'')"]
    view_add [OF view_after_two after_lock, of "''3''" "''C''"]
  by (simp add: md5_of_samples_def two_adds_def three_adds_def)

lemma view_after_shrink:
  "view (after (two_adds @ [Resize 1])) =
     ([shot ''A'' ''1''], 1, 1,
      {''7fc56270e7a70fa81a5935b72eacbe29'', ''9d5ed678fe57bcca610140957afab571''}, ''/s'',
      [(True, MaxSizeSet), (True, QueueNew), (True, HashAdd), (True, QueuePut), (True, CountSet),
       (True, HashAdd), (True, QueuePut), (True, CountSet),
       (True, MaxSizeSet), (True, QueueNew), (True, QueuePut)])"
  using after_snoc [of two_adds "Resize 1"] view_resize [OF view_after_two after_lock, of 1]
  by (simp add: slice_to_def)


lemma view_after_single:
  "view (after [Add (at ''1'') (ByteArray ''A'')]) =
     ([shot ''A'' ''1''], 100, 100, {''7fc56270e7a70fa81a5935b72eacbe29''}, ''/s'',
      [(True, HashAdd), (True, QueuePut), (True, CountSet)])"
  using after_snoc [of "[]" "Add (at ''1'') (ByteArray ''A'')"]
    view_add [OF view_fresh fresh_fields(1), of "''1''" "''A''"]
  by (simp add: md5_of_samples_def after_Nil)

lemma view_after_pair:
  "view (after [Add (at ''1'') (ByteArray ''A''), Add (at ''2'') (ByteArray ''B'')]) =
     ([shot ''A'' ''1'', shot ''B'' ''2''], 100, 100,
      {''7fc56270e7a70fa81a5935b72eacbe29'', ''9d5ed678fe57bcca610140957afab571''}, ''/s'',
      [(True, HashAdd), (True, QueuePut), (True, CountSet),
       (True, HashAdd), (True, QueuePut), (True, CountSet)])"
  using after_snoc [of "[Add (at ''1'') (ByteArray ''A'')]" "Add (at ''2'') (ByteArray ''B'')"]
    view_add [OF view_after_single after_lock, of "''2''" "''B''"]
  by (simp add: md5_of_samples_def insert_commute)

lemma shot_fields:
  "data (shot b hms) = ByteArray b" "filepath (shot b hms) = ''/s/d/'' @ hms @ ''.png''"
  "date_str (shot b hms) = ''d''" "hash (shot b hms) = Some (md5_of_samples b)"
  by (simp_all add: shot_def)

lemma sample_paths:
  "dirname ''/s/d/1.png'' = ''/s/d''" "dirname ''/s/d/2.png'' = ''/s/d''"
  "dirname ''/s/d/3.png'' = ''/s/d''"
  "basename ''/s/d/1.png'' = ''1.png''" "basename ''/s/d/2.png'' = ''2.png''"
  "basename ''/s/d/3.png'' = ''3.png''"
  "user_docs calm ''d'' = ''/home/u/Documents/SmartBoardScreenshots/d''"
  "join ''/home/u/Documents/SmartBoardScreenshots/d'' ''1.png'' =
     ''/home/u/Documents/SmartBoardScreenshots/d/1.png''"
  by (simp_all add: dirname_def basename_def user_docs_def join_def calm_answers)

lemma fallback_paths:
  "basename ''/home/u/Documents/SmartBoardScreenshots/d/1.png'' = ''1.png''"
  by (simp add: basename_def)

lemma world_answers:
  "home denied = ''/home/u''" "makedirs denied p = (if p = ''/s/d'' then Some PermissionError else None)"
  "loadFromData denied d = Inr True" "pixmap_save denied p d = Inr True"
  "home locked_out = ''/home/u''" "makedirs locked_out p = Some PermissionError"
  "home read_only = ''/home/u''" "makedirs read_only p = None"
  "loadFromData read_only d = Inr True"
  "pixmap_save read_only p d = (if p = ''/s/d/1.png'' then Inl PermissionError else Inr True)"
  "home refused = ''/home/u''" "makedirs refused p = None"
  "loadFromData refused d = Inr True"
  "pixmap_save refused p d = (if p = ''/s/d/1.png'' then Inr False else Inr True)"
  "home twice_denied = ''/home/u''"
  "makedirs twice_denied p = (if p = ''/s/d'' then Some PermissionError else None)"
  "loadFromData twice_denied d = Inr True"
  "pixmap_save twice_denied p d =
     (if p = ''/home/u/Documents/SmartBoardScreenshots/d/1.png''
      then Inl PermissionError else Inr True)"
  "home half_decodable = ''/home/u''" "makedirs half_decodable p = None"
  "loadFromData half_decodable d = Inr (d \<noteq> ByteArray ''B'')"
  "pixmap_save half_decodable p d = Inr True"
  by (simp_all add: denied_def locked_out_def read_only_def refused_def twice_denied_def
      half_decodable_def calm_def)

lemma user_docs_worlds:
  "user_docs denied ''d'' = ''/home/u/Documents/SmartBoardScreenshots/d''"
  "user_docs locked_out ''d'' = ''/home/u/Documents/SmartBoardScreenshots/d''"
  "user_docs read_only ''d'' = ''/home/u/Documents/SmartBoardScreenshots/d''"
  "user_docs refused ''d'' = ''/home/u/Documents/SmartBoardScreenshots/d''"
  "user_docs twice_denied ''d'' = ''/home/u/Documents/SmartBoardScreenshots/d''"
  "user_docs half_decodable ''d'' = ''/home/u/Documents/SmartBoardScreenshots/d''"
  by (simp_all add: user_docs_def join_def world_answers)

lemma view_after_triple:
  "view (after [Add (at ''1'') (ByteArray ''A''), Add (at ''2'') (ByteArray ''B''),
                Add (at ''3'') (ByteArray ''C'')]) =
     ([shot ''A'' ''1'', shot ''B'' ''2'', shot ''C'' ''3''], 100, 100,
      {''7fc56270e7a70fa81a5935b72eacbe29'', ''9d5ed678fe57bcca610140957afab571'',
       ''0d61f8370cad1d412f80b84d143e1257''}, ''/s'',
      [(True, HashAdd), (True, QueuePut), (True, CountSet),
       (True, HashAdd), (True, QueuePut), (True, CountSet),
       (True, HashAdd), (True, QueuePut), (True, CountSet)])"
  using after_snoc [of "[Add (at ''1'') (ByteArray ''A''), Add (at ''2'') (ByteArray ''B'')]"
      "Add (at ''3'') (ByteArray ''C'')"]
    view_add [OF view_after_pair after_lock, of "''3''" "''C''"]
  by (simp add: md5_of_samples_def insert_commute)

subsection \<open>The stages of the flush of one item\<close>

lemma item_fs_stages:
  "item_fs e it =
     MakeDirs (dirname (filepath it)) #
     (case makedirs e (dirname (filepath it)) of
        None \<Rightarrow> write_fs e it (filepath it)
      | Some x \<Rightarrow>
          if x = PermissionError
          then MakeDirs (user_docs e (date_str it)) #
               (case makedirs e (user_docs e (date_str it)) of
                  None \<Rightarrow> write_fs e it (join (user_docs e (date_str it)) (basename (filepath it)))
                | Some y \<Rightarrow> [])
          else [])"
  by (simp add: item_fs_def write_fs_def save_item_def load_and_save_def save_failed_def
      save_done_def init_def Let_def split: option.splits sum.splits)

lemma item_log_stages:
  "item_log e it =
     (case makedirs e (dirname (filepath it)) of
        None \<Rightarrow> write_log e it (filepath it)
      | Some x \<Rightarrow>
          if x = PermissionError
          then (case makedirs e (user_docs e (date_str it)) of
                  None \<Rightarrow> write_log e it (join (user_docs e (date_str it)) (basename (filepath it)))
                | Some y \<Rightarrow> [(ERROR, SaveFailed y)])
          else [(ERROR, SaveFailed x)])"
  by (simp add: item_log_def write_log_def save_item_def load_and_save_def save_failed_def
      save_done_def init_def Let_def split: option.splits sum.splits)

lemma write_fs_cases:
  "write_fs e it fp =
     (case loadFromData e (data it) of
        Inl x \<Rightarrow> []
      | Inr ok \<Rightarrow>
          if \<not> ok then []
          else SavePixmap fp (data it) #
               (case pixmap_save e fp (data it) of
                  Inr r \<Rightarrow> []
                | Inl x \<Rightarrow>
                    MakeDirs (user_docs e (date_str it)) #
                    (case makedirs e (user_docs e (date_str it)) of
                       Some y \<Rightarrow> []
                     | None \<Rightarrow>
                         [SavePixmap (join (user_docs e (date_str it)) (basename fp)) (data it)])))"
  by (simp add: write_fs_def load_and_save_def save_failed_def save_done_def init_def Let_def
      split: option.splits sum.splits)

lemma write_log_cases:
  "write_log e it fp =
     (case loadFromData e (data it) of
        Inl x \<Rightarrow> [(ERROR, SaveFailed x)]
      | Inr ok \<Rightarrow>
          if \<not> ok then []
          else (case pixmap_save e fp (data it) of
                  Inr r \<Rightarrow> [(INFO, SavedFile (basename fp))]
                | Inl x \<Rightarrow>
                    (case makedirs e (user_docs e (date_str it)) of
                       Some y \<Rightarrow> [(ERROR, SaveFailed y)]
                     | None \<Rightarrow>
                         (case pixmap_save e
                                 (join (user_docs e (date_str it)) (basename fp)) (data it) of
                            Inl y \<Rightarrow> [(ERROR, SaveFailed y)]
                          | Inr r \<Rightarrow>
                              [(INFO, SavedFile
                                  (basename (join (user_docs e (date_str it)) (basename fp))))]))))"
  by (simp add: write_log_def load_and_save_def save_failed_def save_done_def init_def Let_def
      split: option.splits sum.splits)

lemma item_saved_null:
  "loadFromData e (data it) = Inr False \<Longrightarrow> item_saved e it = 0"
  by (simp add: item_saved_def save_item_def load_and_save_def save_failed_def Let_def
      split: option.splits)

lemma save_worker_log:
  "log_manager (save_worker e s) =
     map_option
       (\<lambda>entries. entries @ concat (map (item_log e) (queue (ram_buffer s))) @
          (if 0 < sum_list (map (item_saved e) (queue (ram_buffer s)))
           then [(INFO, SavedCount (sum_list (map (item_saved e) (queue (ram_buffer s)))))]
           else []))
       (log_manager s)"
  using save_worker_closed [of s "queue (ram_buffer s)" e] save_worker_empty [of s e]
  by (cases "queue (ram_buffer s) = []"; cases "log_manager s") simp_all


lemma item_saved_given_up:
  "makedirs e (dirname (filepath it)) = Some PermissionError \<Longrightarrow>
   makedirs e (user_docs e (date_str it)) = Some y \<Longrightarrow> item_saved e it = 0"
  by (simp add: item_saved_def save_item_def save_failed_def Let_def)

text \<open>
  What follows a permission error of \<^verbatim>\<open>os.makedirs\<close> for the date directory, and what
  follows an exception of \<^verbatim>\<open>pixmap.save\<close>.
\<close>

lemma permission_error_stages:
  "(let d = dirname (filepath it); ud = user_docs e (date_str it)
    in makedirs e d = Some PermissionError \<longrightarrow>
         item_fs e it =
           MakeDirs d # MakeDirs ud #
           (if makedirs e ud = None then write_fs e it (join ud (basename (filepath it))) else []) \<and>
         (\<forall>y. makedirs e ud = Some y \<longrightarrow>
              item_log e it = [(ERROR, SaveFailed y)] \<and> item_saved e it = 0)) \<and>
   (let ud = user_docs e (date_str it); backup_path = join ud (basename fp)
    in loadFromData e (data it) = Inr True \<and> pixmap_save e fp (data it) = Inl x \<longrightarrow>
         write_fs e it fp =
           SavePixmap fp (data it) # MakeDirs ud #
           (if makedirs e ud = None then [SavePixmap backup_path (data it)] else []) \<and>
         (\<forall>y. makedirs e ud = Some y \<or>
              makedirs e ud = None \<and> pixmap_save e backup_path (data it) = Inl y \<longrightarrow>
              write_log e it fp = [(ERROR, SaveFailed y)]))"
proof (intro conjI)
  show "let d = dirname (filepath it); ud = user_docs e (date_str it)
    in makedirs e d = Some PermissionError \<longrightarrow>
         item_fs e it =
           MakeDirs d # MakeDirs ud #
           (if makedirs e ud = None then write_fs e it (join ud (basename (filepath it))) else []) \<and>
         (\<forall>y. makedirs e ud = Some y \<longrightarrow>
              item_log e it = [(ERROR, SaveFailed y)] \<and> item_saved e it = 0)"
    by (auto simp: Let_def item_fs_stages item_log_stages item_saved_given_up)
  show "let ud = user_docs e (date_str it); backup_path = join ud (basename fp)
    in loadFromData e (data it) = Inr True \<and> pixmap_save e fp (data it) = Inl x \<longrightarrow>
         write_fs e it fp =
           SavePixmap fp (data it) # MakeDirs ud #
           (if makedirs e ud = None then [SavePixmap backup_path (data it)] else []) \<and>
         (\<forall>y. makedirs e ud = Some y \<or>
              makedirs e ud = None \<and> pixmap_save e backup_path (data it) = Inl y \<longrightarrow>
              write_log e it fp = [(ERROR, SaveFailed y)])"
    by (auto simp: Let_def write_fs_cases write_log_cases)
qed

text \<open>
  A save that returns, whatever it returns, is the end of the item: no further call
  is made for it, it is logged as saved and counted.
\<close>

lemma returned_save_is_final:
  assumes "makedirs e (dirname (filepath it)) = None"
    and "loadFromData e (data it) = Inr True"
    and "pixmap_save e (filepath it) (data it) = Inr r"
  shows "item_fs e it = [MakeDirs (dirname (filepath it)), SavePixmap (filepath it) (data it)]"
    and "item_log e it = [(INFO, SavedFile (basename (filepath it)))]"
    and "item_saved e it = 1"
  using assms
  by (simp_all add: item_fs_stages item_log_stages write_fs_cases write_log_cases
      item_saved_def save_item_def load_and_save_def save_done_def Let_def)

subsection \<open>Which windows are captured\<close>

text \<open>
  With a non-empty list, a picture is returned only if the lower-cased name of the
  owning process contains some entry, stripped, lower-cased and ending in \<open>.exe\<close>;
  if it contains none, or the owner cannot be found out, the result is none.
\<close>

lemma capture_only_target:
  assumes "names \<noteq> []"
  shows "(capture_foreground_window w names = Some pixmap \<longrightarrow>
            (\<exists>name. owner_name w = Inr name \<and>
               (\<exists>t \<in> set names. sublist (target_of t) (lower name))) \<and>
            grab_window w = Inr pixmap) \<and>
         ((\<forall>name. owner_name w = Inr name \<longrightarrow>
             (\<forall>t \<in> set names. \<not> sublist (target_of t) (lower name))) \<longrightarrow>
            capture_foreground_window w names = None)"
  using assms
  by (auto simp: capture_foreground_window_def is_target_process_def list_ex_iff
      split: sum.splits if_splits)

subsection \<open>Leaving the monitoring loop\<close>

text \<open>
  With a handler whose calls return, an exception of the body ends the pass with the
  back-off and the loop goes on. A pass is left by an exception only if a call of the
  handler raised, and by \<^verbatim>\<open>break\<close> only if the stop flag was set after the capture.
\<close>

lemma handler_Again:
  "handler_returns p \<Longrightarrow> handler p x evs = (evs @ backoff x, Inr Again)"
  by (simp add: handler_def handler_returns_def backoff_def)

lemma pass_once_Inl:
  "pass_once p = (evs, Inl y) \<Longrightarrow> \<not> handler_returns p"
  by (auto simp: pass_once_def handler_Again split: prod.splits sum.splits)

lemma wait_Break: "wait p n \<noteq> (evs, Inr Break)"
  by (simp add: wait_def Let_def split: option.splits prod.splits)

lemma after_capture_Break:
  "after_capture p evs = (evs', Inr Break) \<Longrightarrow> stop_after_capture p"
proof (rule ccontr)
  assume a: "after_capture p evs = (evs', Inr Break)" and n: "\<not> stop_after_capture p"
  show False
  proof (cases "wait_rounds p")
    case (Inl x)
    then show False using a n by (simp add: after_capture_def)
  next
    case (Inr k)
    then have "snd (wait p k) = Inr Break"
      using a n by (simp add: after_capture_def)
    then show False
      using wait_Break [of p k "fst (wait p k)"] by (cases "wait p k") simp
  qed
qed

lemma handler_Break: "handler p x evs \<noteq> (evs', Inr Break)"
  by (simp add: handler_def split: option.splits)

lemma try_body_Break:
  "try_body p = (evs, Inr Break) \<Longrightarrow> stop_after_capture p"
  by (auto simp: try_body_def Let_def dest: after_capture_Break
      split: if_splits option.splits sum.splits)

lemma pass_once_Break:
  "pass_once p = (evs, Inr Break) \<Longrightarrow> stop_after_capture p"
proof -
  assume a: "pass_once p = (evs, Inr Break)"
  obtain es r where t: "try_body p = (es, r)"
    by (cases "try_body p")
  show ?thesis
  proof (cases r)
    case (Inl x)
    then show ?thesis
      using a t handler_Break [of p x es evs] by (simp add: pass_once_def)
  next
    case (Inr c)
    then show ?thesis
      using a t try_body_Break [of p evs] by (simp add: pass_once_def)
  qed
qed

lemma run_loop_Died:
  "snd (run_loop ps) = Died y \<Longrightarrow> \<exists>q \<in> set ps. \<not> handler_returns q"
proof (induction ps)
  case Nil
  then show ?case by simp
next
  case (Cons p ps)
  show ?case
  proof (cases "stop_at_top p")
    case True
    then show ?thesis using Cons.prems by simp
  next
    case False
    obtain evs r where pr: "pass_once p = (evs, r)"
      by (cases "pass_once p")
    show ?thesis
    proof (cases r)
      case (Inl z)
      then show ?thesis
        using pr pass_once_Inl by auto
    next
      case (Inr c)
      then show ?thesis
        using Cons pr False by (cases c) simp_all
    qed
  qed
qed

lemma run_loop_Stopped:
  "snd (run_loop ps) = Stopped \<Longrightarrow> \<exists>q \<in> set ps. stop_at_top q \<or> stop_after_capture q"
proof (induction ps)
  case Nil
  then show ?case by simp
next
  case (Cons p ps)
  show ?case
  proof (cases "stop_at_top p")
    case True
    then show ?thesis by simp
  next
    case False
    obtain evs r where pr: "pass_once p = (evs, r)"
      by (cases "pass_once p")
    show ?thesis
    proof (cases r)
      case (Inl z)
      then show ?thesis
        using Cons.prems pr False by simp
    next
      case (Inr c)
      show ?thesis
      proof (cases c)
        case Break
        then show ?thesis
          using pr Inr pass_once_Break by auto
      next
        case Again
        then show ?thesis
          using Cons pr Inr False by simp
      qed
    qed
  qed
qed


text \<open>Where the body of the \<^verbatim>\<open>try\<close> can raise, and what it has done by then.\<close>

lemma run_loop_Again:
  "\<not> stop_at_top p \<Longrightarrow> pass_once p = (evs, Inr Again) \<Longrightarrow>
   run_loop (p # ps) = (evs @ fst (run_loop ps), snd (run_loop ps))"
  by simp

lemma pass_once_caught:
  "try_body p = (evs, Inl x) \<Longrightarrow> handler_returns p \<Longrightarrow>
   pass_once p = (evs @ backoff x, Inr Again)"
  by (simp add: pass_once_def handler_Again)

lemma idle_raises:
  "\<not> capture_enabled p \<Longrightarrow> idle_slept p = Some x \<Longrightarrow> try_body p = ([], Inl x)"
  by (simp add: try_body_def)

lemma capture_raises:
  "capture_enabled p \<Longrightarrow> has_screenshot_manager p \<Longrightarrow> captured p = Inl x \<Longrightarrow>
   try_body p = ([Capture (capture_call_of p)], Inl x)"
  by (simp add: try_body_def)

lemma hand_off_raises:
  "capture_enabled p \<Longrightarrow> has_screenshot_manager p \<Longrightarrow> captured p = Inr (Some pm) \<Longrightarrow>
   capture_emitted p = Some x \<Longrightarrow>
   try_body p = ([Capture (capture_call_of p)], Inl x)"
  by (simp add: try_body_def)

lemma notification_raises:
  "capture_enabled p \<Longrightarrow> has_screenshot_manager p \<Longrightarrow> captured p = Inr (Some pm) \<Longrightarrow>
   capture_emitted p = None \<Longrightarrow> log_emitted p = Some x \<Longrightarrow>
   try_body p = ([Capture (capture_call_of p), CaptureSignal pm], Inl x)"
  by (simp add: try_body_def)

lemma reaches_wait:
  assumes "capture_enabled p"
    and "if has_screenshot_manager p then captured p = Inr c else c = None"
    and "c \<noteq> None \<longrightarrow> capture_emitted p = None \<and> log_emitted p = None"
  shows "try_body p =
         after_capture p
           ((if has_screenshot_manager p then [Capture (capture_call_of p)] else []) @
            delivered c)"
  using assms by (cases c) (auto simp: try_body_def delivered_def split: if_splits)

lemma interval_raises:
  "\<not> stop_after_capture p \<Longrightarrow> wait_rounds p = Inl x \<Longrightarrow> after_capture p evs = (evs, Inl x)"
  by (simp add: after_capture_def)

lemma sleep_raises:
  assumes "\<not> stop_after_capture p" and "wait_rounds p = Inr n"
    and "wait_sleep_raised p = Some (j, x)" and "j < n"
    and "\<forall>k. stop_seen_at p = Some k \<longrightarrow> j < k"
  shows "after_capture p evs = (evs @ replicate j (Msleep 100), Inl x)"
  using assms by (auto simp: after_capture_def wait_def Let_def split: option.splits)

lemma pass_once_goes_on:
  assumes "handler_returns p"
  shows "(\<exists>evs. pass_once p = (evs, Inr Again)) \<or>
         (stop_after_capture p \<and> (\<exists>evs. pass_once p = (evs, Inr Break)))"
proof -
  obtain evs r where pr: "pass_once p = (evs, r)"
    by (cases "pass_once p")
  show ?thesis
  proof (cases r)
    case (Inl y)
    then show ?thesis
      using pr pass_once_Inl assms by blast
  next
    case (Inr c)
    then show ?thesis
      using pr pass_once_Break [of p evs] by (cases c) auto
  qed
qed

lemma body_raises:
  assumes "(\<not> capture_enabled p \<and> idle_slept p = Some x \<and> evs = []) \<or>
      (capture_enabled p \<and> has_screenshot_manager p \<and> captured p = Inl x \<and>
       evs = [Capture (capture_call_of p)]) \<or>
      (capture_enabled p \<and> has_screenshot_manager p \<and> captured p = Inr (Some pm) \<and>
       capture_emitted p = Some x \<and> evs = [Capture (capture_call_of p)]) \<or>
      (capture_enabled p \<and> has_screenshot_manager p \<and> captured p = Inr (Some pm) \<and>
       capture_emitted p = None \<and> log_emitted p = Some x \<and>
       evs = [Capture (capture_call_of p), CaptureSignal pm]) \<or>
      (capture_enabled p \<and>
       (if has_screenshot_manager p then captured p = Inr c else c = None) \<and>
       (c \<noteq> None \<longrightarrow> capture_emitted p = None \<and> log_emitted p = None) \<and>
       \<not> stop_after_capture p \<and> wait_rounds p = Inl x \<and>
       evs = (if has_screenshot_manager p then [Capture (capture_call_of p)] else []) @
             delivered c) \<or>
      (capture_enabled p \<and>
       (if has_screenshot_manager p then captured p = Inr c else c = None) \<and>
       (c \<noteq> None \<longrightarrow> capture_emitted p = None \<and> log_emitted p = None) \<and>
       \<not> stop_after_capture p \<and> wait_rounds p = Inr n \<and>
       wait_sleep_raised p = Some (j, x) \<and> j < n \<and>
       (\<forall>k. stop_seen_at p = Some k \<longrightarrow> j < k) \<and>
       evs = (if has_screenshot_manager p then [Capture (capture_call_of p)] else []) @
             delivered c @ replicate j (Msleep 100))"
  shows "try_body p = (evs, Inl x)"
  using assms
proof (elim disjE conjE)
  assume "\<not> capture_enabled p" "idle_slept p = Some x" "evs = []"
  then show ?thesis by (simp add: idle_raises)
next
  assume "capture_enabled p" "has_screenshot_manager p" "captured p = Inl x"
    "evs = [Capture (capture_call_of p)]"
  then show ?thesis by (simp add: capture_raises)
next
  assume "capture_enabled p" "has_screenshot_manager p" "captured p = Inr (Some pm)"
    "capture_emitted p = Some x" "evs = [Capture (capture_call_of p)]"
  then show ?thesis by (simp add: hand_off_raises)
next
  assume "capture_enabled p" "has_screenshot_manager p" "captured p = Inr (Some pm)"
    "capture_emitted p = None" "log_emitted p = Some x"
    "evs = [Capture (capture_call_of p), CaptureSignal pm]"
  then show ?thesis by (simp add: notification_raises)
next
  assume a: "capture_enabled p"
    "if has_screenshot_manager p then captured p = Inr c else c = None"
    "c \<noteq> None \<longrightarrow> capture_emitted p = None \<and> log_emitted p = None"
    and b: "\<not> stop_after_capture p" "wait_rounds p = Inl x"
    and e: "evs = (if has_screenshot_manager p then [Capture (capture_call_of p)] else []) @
             delivered c"
  show ?thesis
    using reaches_wait [OF a] interval_raises [OF b] e by simp
next
  assume a: "capture_enabled p"
    "if has_screenshot_manager p then captured p = Inr c else c = None"
    "c \<noteq> None \<longrightarrow> capture_emitted p = None \<and> log_emitted p = None"
    and b: "\<not> stop_after_capture p" "wait_rounds p = Inr n"
    "wait_sleep_raised p = Some (j, x)" "j < n" "\<forall>k. stop_seen_at p = Some k \<longrightarrow> j < k"
    and e: "evs = (if has_screenshot_manager p then [Capture (capture_call_of p)] else []) @
             delivered c @ replicate j (Msleep 100)"
  show ?thesis
    using reaches_wait [OF a] sleep_raises [OF b] e by simp
qed

lemma quiet_fields:
  "stop_at_top quiet_pass = False" "capture_enabled quiet_pass = True"
  "idle_slept quiet_pass = None" "has_screenshot_manager quiet_pass = True"
  "foreground_detection quiet_pass = False" "process_names quiet_pass = []"
  "captured quiet_pass = Inr (Some 7)" "capture_emitted quiet_pass = None"
  "log_emitted quiet_pass = None" "stop_after_capture quiet_pass = False"
  "wait_rounds quiet_pass = Inr 2" "stop_seen_at quiet_pass = None"
  "wait_sleep_raised quiet_pass = None" "handler_log_emitted quiet_pass = None"
  "handler_status_emitted quiet_pass = None" "handler_slept quiet_pass = None"
  by (simp_all add: quiet_pass_def)

lemmas pass_defs =
  failing_pass_def unsent_pass_def sleepless_pass_def doomed_pass_def stopping_pass_def
  handler_returns_def capture_call_of_def backoff_def delivered_def


section \<open>The claims\<close>

text \<open>
  Claim C1: with capacity 2, after adding \<open>A\<close>, \<open>B\<close> and \<open>C\<close> (pairwise different),
  the third call flushes \<open>A\<close> and \<open>B\<close> and then inserts \<open>C\<close>, and \<^verbatim>\<open>image_hashes\<close>
  holds exactly the digest of \<open>C\<close> afterwards. The run below does flush \<open>A\<close> and
  \<open>B\<close> (the two writes) and does leave \<open>C\<close> alone in the queue, with its digest
  stored in the item; but \<^verbatim>\<open>image_hashes\<close> is empty: the digest of \<open>C\<close> is put into
  the set before \<^verbatim>\<open>_save_worker\<close> runs, and \<^verbatim>\<open>_save_worker\<close> clears the whole set.
\<close>

theorem forced_flush_forgets_new_hash:
  "map_option
     (\<lambda>s. (map data (queue (ram_buffer s)), map hash (queue (ram_buffer s)), image_hashes s,
           filter is_save (fs_ops s)))
     (run calm three_adds fresh) =
   Some ([ByteArray ''C''], [Some ''0d61f8370cad1d412f80b84d143e1257''], {},
         [SavePixmap ''/s/d/1.png'' (ByteArray ''A''), SavePixmap ''/s/d/2.png'' (ByteArray ''B'')])"
proof -
  let ?s0 = "snd (set_buffer_size 2 fresh)"
  let ?s1 = "snd (add_to_buffer calm (at ''1'') (ByteArray ''A'') ?s0)"
  let ?s2 = "snd (add_to_buffer calm (at ''2'') (ByteArray ''B'') ?s1)"
  let ?s3 = "snd (add_to_buffer calm (at ''3'') (ByteArray ''C'') ?s2)"
  have l: "\<not> lock fresh" by (simp add: fresh_def init_def)
  have l0: "\<not> lock ?s0" using step_static(2) [OF l, of calm "Resize 2"] by simp
  have l1: "\<not> lock ?s1" using l0 by (simp add: add_static)
  have l2: "\<not> lock ?s2" using l1 by (simp add: add_static)
  have r: "run calm three_adds fresh = Some ?s3"
    using l l0 l1 l2 by (simp add: three_adds_def run_Cons)
  have q0: "ram_buffer ?s0 = \<lparr>maxsize = 2, queue = []\<rparr>" "image_hashes ?s0 = {}"
     "save_path ?s0 = ''/s''" "fs_ops ?s0 = []"
    by (simp_all add: set_buffer_size_closed l fresh_def init_def Queue_def slice_to_def)
  have q1: "queue (ram_buffer ?s1) =
        [\<lparr>data = ByteArray ''A'', timestamp = 0, filepath = ''/s/d/1.png'', date_str = ''d'',
          filename = ''1.png'', hash = Some ''7fc56270e7a70fa81a5935b72eacbe29''\<rparr>]"
     "image_hashes ?s1 = {''7fc56270e7a70fa81a5935b72eacbe29''}"
     "maxsize (ram_buffer ?s1) = 2" "save_path ?s1 = ''/s''" "filter is_save (fs_ops ?s1) = []"
    by (simp_all add: add_queue add_hashes add_static add_fs_ops l0 q0 eval_defs calm_answers
        md5_of_samples_def at_fields)
  have q2: "queue (ram_buffer ?s2) =
        [\<lparr>data = ByteArray ''A'', timestamp = 0, filepath = ''/s/d/1.png'', date_str = ''d'',
          filename = ''1.png'', hash = Some ''7fc56270e7a70fa81a5935b72eacbe29''\<rparr>,
         \<lparr>data = ByteArray ''B'', timestamp = 0, filepath = ''/s/d/2.png'', date_str = ''d'',
          filename = ''2.png'', hash = Some ''9d5ed678fe57bcca610140957afab571''\<rparr>]"
     "image_hashes ?s2 = {''7fc56270e7a70fa81a5935b72eacbe29'', ''9d5ed678fe57bcca610140957afab571''}"
     "maxsize (ram_buffer ?s2) = 2" "save_path ?s2 = ''/s''" "filter is_save (fs_ops ?s2) = []"
    by (simp_all add: add_queue add_hashes add_static add_fs_ops l1 q1 eval_defs calm_answers
        md5_of_samples_def at_fields insert_commute)
  have q3: "map data (queue (ram_buffer ?s3)) = [ByteArray ''C'']"
     "map hash (queue (ram_buffer ?s3)) = [Some ''0d61f8370cad1d412f80b84d143e1257'']"
     "image_hashes ?s3 = {}"
     "filter is_save (fs_ops ?s3) =
        [SavePixmap ''/s/d/1.png'' (ByteArray ''A''), SavePixmap ''/s/d/2.png'' (ByteArray ''B'')]"
    using calm_item_fs [of "ByteArray ''A''" 0 "''1.png''"] calm_item_fs [of "ByteArray ''B''" 0 "''2.png''"]
    by (simp_all add: add_queue add_hashes add_static add_fs_ops l2 q2 eval_defs calm_answers
        md5_of_samples_def at_fields)
  show ?thesis
    unfolding r by (simp add: q3)
qed

text \<open>
  Claim C2: after every \<^verbatim>\<open>add_to_buffer\<close>, flush and \<^verbatim>\<open>set_buffer_size\<close>,
  \<^verbatim>\<open>image_hashes\<close> is exactly the set of digests of the items in the queue. Two runs
  where it is not: after the three additions of C1 the set is empty while the queue
  holds \<open>C\<close>; and after shrinking a buffer that holds \<open>A\<close> and \<open>B\<close> to capacity 1
  the set still has the digest of \<open>B\<close>, which \<^verbatim>\<open>set_buffer_size\<close> dropped from the
  queue without touching the set.
\<close>

theorem hashes_differ_from_buffered:
  "map_option (\<lambda>s. (image_hashes s, buffered_hashes s)) (run calm three_adds fresh) =
     Some ({}, {''0d61f8370cad1d412f80b84d143e1257''}) \<and>
   map_option (\<lambda>s. (image_hashes s, buffered_hashes s)) (run calm (two_adds @ [Resize 1]) fresh) =
     Some ({''7fc56270e7a70fa81a5935b72eacbe29'', ''9d5ed678fe57bcca610140957afab571''},
           {''7fc56270e7a70fa81a5935b72eacbe29''})"
  using view_after_three view_after_shrink
  unfolding run_after
  by (simp add: view_def buffered_hashes_def shot_def md5_of_samples_def)

text \<open>
  Claim C3: from an empty buffer, after any sequence of additions, flushes and
  resizings the queue holds no more items than the capacity, at the return of each
  operation; and resizing keeps the oldest items up to the new capacity. Capacities
  are positive, as the data model of the specification has them (a \<^verbatim>\<open>Queue\<close> made
  with \<^verbatim>\<open>maxsize <= 0\<close> is unbounded). Every operation of the sequence returns or
  raises: none waits forever.
\<close>

theorem capacity_never_exceeded:
  assumes "queue (ram_buffer s0) = []" and "maxsize (ram_buffer s0) = max_size s0"
    and "0 < max_size s0" and "\<not> lock s0"
    and "list_all positive ops" and "k \<le> length ops"
  shows "(\<exists>s. run e (take k ops) s0 = Some s \<and>
              int (length (queue (ram_buffer s))) \<le> max_size s) \<and>
         (\<forall>n s. 0 < n \<and> \<not> lock s \<longrightarrow>
              queue (ram_buffer (snd (set_buffer_size n s))) = take (nat n) (queue (ram_buffer s)))"
proof
  have i: "buffer_inv s0"
    using assms(1-4) by (simp add: buffer_inv_def)
  have "list_all positive (take k ops)"
    using assms(5) by (auto simp: list_all_iff dest: in_set_takeD)
  from run_inv [OF i this, of e]
  show "\<exists>s. run e (take k ops) s0 = Some s \<and> int (length (queue (ram_buffer s))) \<le> max_size s"
    by (auto simp: buffer_inv_def)
next
  show "\<forall>n s. 0 < n \<and> \<not> lock s \<longrightarrow>
      queue (ram_buffer (snd (set_buffer_size n s))) = take (nat n) (queue (ram_buffer s))"
    by (simp add: set_buffer_size_closed slice_to_def)
qed

theorem capacity_never_exceeded_witness:
  "(\<exists>s. run calm (take 4 three_adds) fresh = Some s \<and>
        int (length (queue (ram_buffer s))) \<le> max_size s) \<and>
   queue (ram_buffer (snd (set_buffer_size 1 (after two_adds)))) = [shot ''A'' ''1'']"
proof -
  have v: "queue (ram_buffer (after two_adds)) = [shot ''A'' ''1'', shot ''B'' ''2'']"
    using view_after_two by (simp add: view_def)
  have p: "list_all positive three_adds" and k: "(4::nat) \<le> length three_adds"
    by (simp_all add: three_adds_def)
  show ?thesis
    using capacity_never_exceeded [OF fresh_fields(2) _ _ fresh_fields(1) p k, of calm]
      after_lock [of two_adds]
    by (simp add: fresh_fields v)
qed

text \<open>
  Claim C4: every write of the buffer by \<^verbatim>\<open>add_to_buffer\<close> and by \<^verbatim>\<open>_save_worker\<close>,
  also when the latter is called from the auto-save thread or from the check of the
  save times, runs with \<^verbatim>\<open>self.lock\<close> held. \<^verbatim>\<open>add_to_buffer\<close> takes the lock, and so
  the first three accesses below are noted with the lock held; \<^verbatim>\<open>_auto_save_worker\<close>
  and \<^verbatim>\<open>check_save_times\<close> call \<^verbatim>\<open>_save_worker\<close> without taking it, and the
  removal from the queue, the update of the count and the clearing of the set are
  noted with the lock free.
\<close>

theorem drain_without_lock:
  "map_option (\<lambda>s. accesses (auto_save_round calm s))
     (run calm [Add (at ''1'') (ByteArray ''A'')] fresh) =
     Some [(True, HashAdd), (True, QueuePut), (True, CountSet),
           (False, QueueGet), (False, CountSet), (False, HashClear)] \<and>
   map_option (\<lambda>s. accesses (check_save_times calm True ''12:00'' [''08:00'', ''12:00''] s))
     (run calm [Add (at ''1'') (ByteArray ''A'')] fresh) =
     Some [(True, HashAdd), (True, QueuePut), (True, CountSet),
           (False, QueueGet), (False, CountSet), (False, HashClear)]"
  using view_drain [OF view_after_single, of calm]
    after_lock [of "[Add (at ''1'') (ByteArray ''A'')]"]
  unfolding run_after
  by (simp add: view_def auto_save_round_def check_save_times_def)

text \<open>
  Claim C5: in a window without a flush, a second call with the bytes of an earlier
  one is a duplicate: the image is discarded, nothing changes, the buffer does not
  grow. At capacity 2, after \<open>A\<close> and \<open>B\<close>, the call with \<open>C\<close> flushes \<open>A\<close> and \<open>B\<close>
  and queues \<open>C\<close>; the digest of \<open>C\<close>, added in line 92, is wiped by the
  \<^verbatim>\<open>image_hashes.clear()\<close> of the flush that the same call makes in line 98. The next
  call brings the bytes \<open>C\<close> again. It begins after the first has returned, and from
  there on nothing is taken from the queue and the set is not cleared: the accesses
  of the second call are the insertion of the digest, the \<^verbatim>\<open>put\<close> and the count. Yet
  the call finds no duplicate, returns, and the queue holds the bytes \<open>C\<close> twice: the
  buffer has grown from one item to two.
\<close>

theorem repeated_bytes_queued_twice:
  "run calm three_adds fresh = Some (after three_adds) \<and>
   map data (queue (ram_buffer (after three_adds))) = [ByteArray ''C''] \<and>
   \<not> duplicate calm (ByteArray ''C'') (after three_adds) \<and>
   fst (add_to_buffer calm (at ''4'') (ByteArray ''C'') (after three_adds)) = Returned \<and>
   map data (queue (ram_buffer
     (snd (add_to_buffer calm (at ''4'') (ByteArray ''C'') (after three_adds))))) =
     [ByteArray ''C'', ByteArray ''C''] \<and>
   drop (length (accesses (after three_adds)))
     (accesses (snd (add_to_buffer calm (at ''4'') (ByteArray ''C'') (after three_adds)))) =
     [(True, HashAdd), (True, QueuePut), (True, CountSet)] \<and>
   \<not> cleared (after three_adds)
     (snd (add_to_buffer calm (at ''4'') (ByteArray ''C'') (after three_adds)))"
proof -
  let ?s4 = "snd (add_to_buffer calm (at ''4'') (ByteArray ''C'') (after three_adds))"
  have v3: "queue (ram_buffer (after three_adds)) = [shot ''C'' ''3'']"
    "image_hashes (after three_adds) = {}"
    "length (accesses (after three_adds)) = 15"
    using view_after_three by (simp_all add: view_def)
  have v4: "view ?s4 =
     ([shot ''C'' ''3'', shot ''C'' ''4''], 2, 2, {''0d61f8370cad1d412f80b84d143e1257''}, ''/s'',
      [(True, MaxSizeSet), (True, QueueNew), (True, HashAdd), (True, QueuePut), (True, CountSet),
       (True, HashAdd), (True, QueuePut), (True, CountSet),
       (True, HashAdd), (True, QueueGet), (True, QueueGet), (True, CountSet), (True, HashClear),
       (True, QueuePut), (True, CountSet),
       (True, HashAdd), (True, QueuePut), (True, CountSet)])"
    using view_add [OF view_after_three after_lock, of "''4''" "''C''"]
    by (simp add: md5_of_samples_def)
  have q4: "queue (ram_buffer ?s4) = [shot ''C'' ''3'', shot ''C'' ''4'']"
    and a4: "drop 15 (accesses ?s4) = [(True, HashAdd), (True, QueuePut), (True, CountSet)]"
    using v4 by (simp_all add: view_def)
  have nd: "\<not> duplicate calm (ByteArray ''C'') (after three_adds)"
    by (simp add: duplicate_def v3)
  have rdy: "dir_ready calm (at ''4'') (after three_adds)"
    by (simp add: dir_ready_def calm_answers)
  have ret: "fst (add_to_buffer calm (at ''4'') (ByteArray ''C'') (after three_adds)) = Returned"
    using add_returns [OF after_lock, of calm "ByteArray ''C''" three_adds "at ''4''"] rdy
    by simp
  show ?thesis
    by (simp add: run_after v3 q4 a4 nd ret shot_fields cleared_def)
qed

text \<open>
  Claim C6: with a non-empty list of process names, \<^verbatim>\<open>capture_foreground_window\<close>
  returns a picture only if the base name of the executable that owns the foreground
  window matches some entry (letter case and a final \<open>.exe\<close> aside), and returns
  none for every other process. \<^verbatim>\<open>_is_target_process\<close> tests
  \<^verbatim>\<open>target_name in process_name\<close>, which is containment: the entry \<open>word\<close> becomes
  \<open>word.exe\<close>, which occurs inside \<open>winword.exe\<close>, and the window of Word is
  captured although no entry names it. The check of the same entry in the settings
  window, \<^verbatim>\<open>is_process_running\<close>, compares with \<^verbatim>\<open>==\<close> and finds no such process.
\<close>

theorem word_entry_captures_winword:
  "capture_foreground_window word_window [''word''] = Some 7 \<and>
   \<not> spec_matches ''WINWORD.EXE'' ''word'' \<and>
   \<not> is_process_running [Some ''WINWORD.EXE''] ''word''"
  by code_simp

text \<open>
  Claim C7: in a flush, an item whose directory cannot be made or whose write fails
  for lack of permission gets exactly one further attempt under the fallback root
  before it is given up, and the other items are handled all the same. The code tries
  this (line 195 announces the fallback for a failed save) and does it for the
  directory. For the write it waits for an exception of \<^verbatim>\<open>pixmap.save\<close>, but
  \<^verbatim>\<open>QPixmap.save\<close> reports a file that it could not write by returning \<^verbatim>\<open>False\<close>, and
  line 197 drops the value. In the world \<open>refused\<close>, where the file \<open>/s/d/1.png\<close>
  cannot be written, the flush makes the directory and the one call of \<^verbatim>\<open>save\<close> and
  nothing more for the item: no call goes to the fallback root, the log says that
  \<open>1.png\<close> was saved, and the item is counted as saved, in the flush of the buffer
  after \<open>A\<close> and \<open>B\<close> as for the item alone. And the further attempt is not one per
  item: in the world \<open>twice_denied\<close>, where the directory is denied and the save under
  the fallback root raises, the file is written under the fallback root twice, by the
  handler of line 185 and again by the handler of line 198, before the error is
  logged.
\<close>

theorem refused_write_not_retried:
  "pixmap_save refused (filepath (shot ''A'' ''1'')) (data (shot ''A'' ''1'')) = Inr False \<and>
   item_fs refused (shot ''A'' ''1'') =
     [MakeDirs ''/s/d'', SavePixmap ''/s/d/1.png'' (ByteArray ''A'')] \<and>
   item_log refused (shot ''A'' ''1'') = [(INFO, SavedFile ''1.png'')] \<and>
   item_saved refused (shot ''A'' ''1'') = 1 \<and>
   queue (ram_buffer (after two_adds)) = [shot ''A'' ''1'', shot ''B'' ''2''] \<and>
   fs_ops (save_worker refused (after two_adds)) =
     fs_ops (after two_adds) @
     [MakeDirs ''/s/d'', SavePixmap ''/s/d/1.png'' (ByteArray ''A''),
      MakeDirs ''/s/d'', SavePixmap ''/s/d/2.png'' (ByteArray ''B'')] \<and>
   log_manager (save_worker refused (after two_adds)) =
     map_option
       (\<lambda>entries. entries @
          [(INFO, SavedFile ''1.png''), (INFO, SavedFile ''2.png''), (INFO, SavedCount 2)])
       (log_manager (after two_adds)) \<and>
   item_fs twice_denied (shot ''A'' ''1'') =
     [MakeDirs ''/s/d'', MakeDirs ''/home/u/Documents/SmartBoardScreenshots/d'',
      SavePixmap ''/home/u/Documents/SmartBoardScreenshots/d/1.png'' (ByteArray ''A''),
      MakeDirs ''/home/u/Documents/SmartBoardScreenshots/d'',
      SavePixmap ''/home/u/Documents/SmartBoardScreenshots/d/1.png'' (ByteArray ''A'')] \<and>
   item_log twice_denied (shot ''A'' ''1'') = [(ERROR, SaveFailed PermissionError)]"
proof -
  have q: "queue (ram_buffer (after two_adds)) = [shot ''A'' ''1'', shot ''B'' ''2'']"
    using view_after_two by (simp add: view_def)
  have r: "pixmap_save refused (filepath (shot ''A'' ''1'')) (data (shot ''A'' ''1'')) = Inr False"
    by (simp add: world_answers shot_fields)
  have fsA: "item_fs refused (shot ''A'' ''1'') =
      [MakeDirs ''/s/d'', SavePixmap ''/s/d/1.png'' (ByteArray ''A'')]"
    and fsB: "item_fs refused (shot ''B'' ''2'') =
      [MakeDirs ''/s/d'', SavePixmap ''/s/d/2.png'' (ByteArray ''B'')]"
    by (simp_all add: item_fs_stages write_fs_cases world_answers shot_fields sample_paths)
  have logA: "item_log refused (shot ''A'' ''1'') = [(INFO, SavedFile ''1.png'')]"
    and logB: "item_log refused (shot ''B'' ''2'') = [(INFO, SavedFile ''2.png'')]"
    by (simp_all add: item_log_stages write_log_cases world_answers shot_fields sample_paths)
  have cnt: "item_saved refused (shot ''A'' ''1'') = 1" "item_saved refused (shot ''B'' ''2'') = 1"
    by (simp_all add: item_saved_def save_item_def load_and_save_def save_done_def Let_def
        world_answers shot_fields)
  have fsT: "item_fs twice_denied (shot ''A'' ''1'') =
     [MakeDirs ''/s/d'', MakeDirs ''/home/u/Documents/SmartBoardScreenshots/d'',
      SavePixmap ''/home/u/Documents/SmartBoardScreenshots/d/1.png'' (ByteArray ''A''),
      MakeDirs ''/home/u/Documents/SmartBoardScreenshots/d'',
      SavePixmap ''/home/u/Documents/SmartBoardScreenshots/d/1.png'' (ByteArray ''A'')]"
    by (simp add: item_fs_stages write_fs_cases world_answers user_docs_worlds shot_fields
        sample_paths fallback_paths)
  have logT: "item_log twice_denied (shot ''A'' ''1'') = [(ERROR, SaveFailed PermissionError)]"
    by (simp add: item_log_stages write_log_cases world_answers user_docs_worlds shot_fields
        sample_paths fallback_paths)
  have fl: "fs_ops (save_worker refused (after two_adds)) =
     fs_ops (after two_adds) @
     [MakeDirs ''/s/d'', SavePixmap ''/s/d/1.png'' (ByteArray ''A''),
      MakeDirs ''/s/d'', SavePixmap ''/s/d/2.png'' (ByteArray ''B'')]"
    by (simp add: save_worker_fields q fsA fsB)
  have ll: "log_manager (save_worker refused (after two_adds)) =
     map_option
       (\<lambda>entries. entries @
          [(INFO, SavedFile ''1.png''), (INFO, SavedFile ''2.png''), (INFO, SavedCount 2)])
       (log_manager (after two_adds))"
    by (simp add: save_worker_log q logA logB cnt numeral_2_eq_2)
  show ?thesis
    using r fsA logA cnt(1) q fl ll fsT logT by simp
qed

text \<open>
  Claim C8: an image whose hashing fails is treated as new. No duplicate check is
  made for it, it is admitted into the buffer (after the flush, if the buffer was
  full) with no digest in its item, the call returns, and no digest is recorded: the
  set is left as it was, or emptied by that flush. The lock is free when the call
  begins, and the date directory of the image can be made, under the save path or,
  after a permission error there, under the fallback root.
\<close>

theorem unhashable_admitted:
  assumes "calculate_image_hash e d = None" and "\<not> lock s" and "dir_ready e st s"
  shows "\<not> duplicate e d s \<and>
         fst (add_to_buffer e st d s) = Returned \<and>
         queue (ram_buffer (snd (add_to_buffer e st d s))) =
           (if full (ram_buffer s) then [] else queue (ram_buffer s)) @ [new_item e st d s] \<and>
         data (new_item e st d s) = d \<and> hash (new_item e st d s) = None \<and>
         image_hashes (snd (add_to_buffer e st d s)) =
           (if full (ram_buffer s) then {} else image_hashes s)"
proof -
  have nd: "\<not> duplicate e d s"
    using assms(1) by (simp add: duplicate_def truthy_def)
  show ?thesis
    using assms(1,3) nd
    by (simp add: add_hashes [OF assms(2)] add_queue [OF assms(2)] add_returns [OF assms(2)]
        truthy_def new_item_def)
qed

theorem unhashable_admitted_witness:
  "map data (queue (ram_buffer (snd (add_to_buffer calm (at ''3'') NotBytes (after two_adds))))) =
     [NotBytes] \<and>
   image_hashes (snd (add_to_buffer calm (at ''3'') NotBytes (after two_adds))) = {} \<and>
   fst (add_to_buffer calm (at ''3'') NotBytes (after two_adds)) = Returned \<and>
   map data (queue (ram_buffer (snd (add_to_buffer calm (at ''3'') NotBytes
      (after [Add (at ''1'') (ByteArray ''A'')]))))) = [ByteArray ''A'', NotBytes] \<and>
   image_hashes (snd (add_to_buffer calm (at ''3'') NotBytes
      (after [Add (at ''1'') (ByteArray ''A'')]))) = {''7fc56270e7a70fa81a5935b72eacbe29''} \<and>
   fst (add_to_buffer calm (at ''3'') NotBytes (after [Add (at ''1'') (ByteArray ''A'')])) =
     Returned"
proof -
  have h: "calculate_image_hash calm NotBytes = None"
    by (simp add: calculate_image_hash_def)
  have r: "dir_ready calm st s" for st s
    by (simp add: dir_ready_def calm_answers)
  have v2: "queue (ram_buffer (after two_adds)) = [shot ''A'' ''1'', shot ''B'' ''2'']"
    "maxsize (ram_buffer (after two_adds)) = 2"
    using view_after_two by (simp_all add: view_def)
  have v1: "queue (ram_buffer (after [Add (at ''1'') (ByteArray ''A'')])) = [shot ''A'' ''1'']"
    "maxsize (ram_buffer (after [Add (at ''1'') (ByteArray ''A'')])) = 100"
    "image_hashes (after [Add (at ''1'') (ByteArray ''A'')]) = {''7fc56270e7a70fa81a5935b72eacbe29''}"
    using view_after_single by (simp_all add: view_def)
  show ?thesis
    using unhashable_admitted [OF h after_lock r, of two_adds "at ''3''"]
      unhashable_admitted [OF h after_lock r, of "[Add (at ''1'') (ByteArray ''A'')]" "at ''3''"]
    by (simp add: v1 v2 full_def qsize_def shot_fields)
qed

text \<open>
  Claim C9: every exception raised inside a pass of the monitoring loop is caught,
  logged, reported as status and followed by a back-off of one second, and the loop
  goes on; no exception of a single pass ends the loop. The handler that does this
  (lines 100 to 104) emits the same signals as the body, and nothing guards it. In
  the pass \<open>doomed_pass\<close> the capture raises and the log signal that the handler emits
  raises too: the event of this pass is the capture alone (no log entry, no status,
  no sleep), the exception leaves \<^verbatim>\<open>run\<close>, and the passes that would have followed are
  not made.
\<close>

theorem handler_exception_ends_loop:
  "run_loop [doomed_pass, quiet_pass, stopping_pass] =
     ([Capture CaptureScreen], Died PermissionError)"
proof -
  have "try_body doomed_pass = ([Capture (capture_call_of doomed_pass)], Inl OtherException)"
    by (rule capture_raises) (simp_all add: pass_defs quiet_fields)
  then have "pass_once doomed_pass = ([Capture CaptureScreen], Inl PermissionError)"
    by (simp add: pass_once_def handler_def pass_defs quiet_fields)
  then show ?thesis
    by (simp add: pass_defs quiet_fields)
qed

text \<open>
  Claim C9 as amended: an exception \<open>x\<close> raised in the \<^verbatim>\<open>try\<close> body of a pass is
  caught, wherever it is raised: by the sleep of the disabled path, by the capture, by
  the hand-over of the picture, by the log signal after it, by the conversion of the
  interval, or by a sleep of the wait (the six cases below, each with the events \<open>evs\<close>
  that the pass had got to). If the three calls of the handler return, the handler
  emits the log signal and the status signal with the error and sleeps 1000 ms, and
  the loop goes on with the next pass. If a call of the handler raises \<open>y\<close>, the loop
  ends at once with \<open>y\<close>, after what the handler had emitted by then. A pass whose
  handler returns either goes on to the next pass or ends the loop through the stop
  flag; a run all of whose handlers return never dies; and the loop stops only where
  the stop flag is found set, at the top of a pass or after the capture.
\<close>

theorem body_exception_backs_off:
  assumes "\<not> stop_at_top p"
  shows "((\<not> capture_enabled p \<and> idle_slept p = Some x \<and> evs = []) \<or>
          (capture_enabled p \<and> has_screenshot_manager p \<and> captured p = Inl x \<and>
           evs = [Capture (capture_call_of p)]) \<or>
          (capture_enabled p \<and> has_screenshot_manager p \<and> captured p = Inr (Some pm) \<and>
           capture_emitted p = Some x \<and> evs = [Capture (capture_call_of p)]) \<or>
          (capture_enabled p \<and> has_screenshot_manager p \<and> captured p = Inr (Some pm) \<and>
           capture_emitted p = None \<and> log_emitted p = Some x \<and>
           evs = [Capture (capture_call_of p), CaptureSignal pm]) \<or>
          (capture_enabled p \<and>
           (if has_screenshot_manager p then captured p = Inr c else c = None) \<and>
           (c \<noteq> None \<longrightarrow> capture_emitted p = None \<and> log_emitted p = None) \<and>
           \<not> stop_after_capture p \<and> wait_rounds p = Inl x \<and>
           evs = (if has_screenshot_manager p then [Capture (capture_call_of p)] else []) @
                 delivered c) \<or>
          (capture_enabled p \<and>
           (if has_screenshot_manager p then captured p = Inr c else c = None) \<and>
           (c \<noteq> None \<longrightarrow> capture_emitted p = None \<and> log_emitted p = None) \<and>
           \<not> stop_after_capture p \<and> wait_rounds p = Inr n \<and>
           wait_sleep_raised p = Some (j, x) \<and> j < n \<and>
           (\<forall>k. stop_seen_at p = Some k \<longrightarrow> j < k) \<and>
           evs = (if has_screenshot_manager p then [Capture (capture_call_of p)] else []) @
                 delivered c @ replicate j (Msleep 100)) \<longrightarrow>
          (handler_returns p \<longrightarrow>
             run_loop (p # ps) =
               (evs @ [LogSignal ERROR (ThreadError x), StatusSignal StatusError (ThreadError x),
                       Msleep 1000] @ fst (run_loop ps),
                snd (run_loop ps))) \<and>
          (handler_log_emitted p = Some y \<longrightarrow> run_loop (p # ps) = (evs, Died y)) \<and>
          (handler_log_emitted p = None \<and> handler_status_emitted p = Some y \<longrightarrow>
             run_loop (p # ps) = (evs @ [LogSignal ERROR (ThreadError x)], Died y)) \<and>
          (handler_log_emitted p = None \<and> handler_status_emitted p = None \<and>
           handler_slept p = Some y \<longrightarrow>
             run_loop (p # ps) =
               (evs @ [LogSignal ERROR (ThreadError x),
                       StatusSignal StatusError (ThreadError x)], Died y))) \<and>
         (handler_returns p \<longrightarrow>
            (\<exists>es. run_loop (p # ps) = (es @ fst (run_loop ps), snd (run_loop ps))) \<or>
            (stop_after_capture p \<and> (\<exists>es. run_loop (p # ps) = (es, Stopped)))) \<and>
         (handler_returns p \<and> (\<forall>q \<in> set ps. handler_returns q) \<longrightarrow>
            (\<forall>z. snd (run_loop (p # ps)) \<noteq> Died z)) \<and>
         (snd (run_loop (p # ps)) = Stopped \<longrightarrow>
            (\<exists>q \<in> set (p # ps). stop_at_top q \<or> stop_after_capture q))"
proof (intro conjI impI)
  assume r: "(\<not> capture_enabled p \<and> idle_slept p = Some x \<and> evs = []) \<or>
          (capture_enabled p \<and> has_screenshot_manager p \<and> captured p = Inl x \<and>
           evs = [Capture (capture_call_of p)]) \<or>
          (capture_enabled p \<and> has_screenshot_manager p \<and> captured p = Inr (Some pm) \<and>
           capture_emitted p = Some x \<and> evs = [Capture (capture_call_of p)]) \<or>
          (capture_enabled p \<and> has_screenshot_manager p \<and> captured p = Inr (Some pm) \<and>
           capture_emitted p = None \<and> log_emitted p = Some x \<and>
           evs = [Capture (capture_call_of p), CaptureSignal pm]) \<or>
          (capture_enabled p \<and>
           (if has_screenshot_manager p then captured p = Inr c else c = None) \<and>
           (c \<noteq> None \<longrightarrow> capture_emitted p = None \<and> log_emitted p = None) \<and>
           \<not> stop_after_capture p \<and> wait_rounds p = Inl x \<and>
           evs = (if has_screenshot_manager p then [Capture (capture_call_of p)] else []) @
                 delivered c) \<or>
          (capture_enabled p \<and>
           (if has_screenshot_manager p then captured p = Inr c else c = None) \<and>
           (c \<noteq> None \<longrightarrow> capture_emitted p = None \<and> log_emitted p = None) \<and>
           \<not> stop_after_capture p \<and> wait_rounds p = Inr n \<and>
           wait_sleep_raised p = Some (j, x) \<and> j < n \<and>
           (\<forall>k. stop_seen_at p = Some k \<longrightarrow> j < k) \<and>
           evs = (if has_screenshot_manager p then [Capture (capture_call_of p)] else []) @
                 delivered c @ replicate j (Msleep 100))"
  note body = body_raises [OF r]
  {
    assume h: "handler_returns p"
    show "run_loop (p # ps) =
        (evs @ [LogSignal ERROR (ThreadError x), StatusSignal StatusError (ThreadError x),
                Msleep 1000] @ fst (run_loop ps),
         snd (run_loop ps))"
      using run_loop_Again [OF assms pass_once_caught [OF body h], of ps]
      by (simp add: backoff_def)
  }
  {
    assume "handler_log_emitted p = Some y"
    then show "run_loop (p # ps) = (evs, Died y)"
      using body assms by (simp add: pass_once_def handler_def)
  }
  {
    assume "handler_log_emitted p = None \<and> handler_status_emitted p = Some y"
    then show "run_loop (p # ps) = (evs @ [LogSignal ERROR (ThreadError x)], Died y)"
      using body assms by (simp add: pass_once_def handler_def)
  }
  {
    assume "handler_log_emitted p = None \<and> handler_status_emitted p = None \<and>
      handler_slept p = Some y"
    then show "run_loop (p # ps) =
        (evs @ [LogSignal ERROR (ThreadError x), StatusSignal StatusError (ThreadError x)],
         Died y)"
      using body assms by (simp add: pass_once_def handler_def)
  }
next
  assume "handler_returns p"
  then show "(\<exists>es. run_loop (p # ps) = (es @ fst (run_loop ps), snd (run_loop ps))) \<or>
      (stop_after_capture p \<and> (\<exists>es. run_loop (p # ps) = (es, Stopped)))"
    using pass_once_goes_on [of p] assms by auto
next
  assume "handler_returns p \<and> (\<forall>q \<in> set ps. handler_returns q)"
  then show "\<forall>z. snd (run_loop (p # ps)) \<noteq> Died z"
    using run_loop_Died [of "p # ps"] by auto
next
  assume "snd (run_loop (p # ps)) = Stopped"
  then show "\<exists>q \<in> set (p # ps). stop_at_top q \<or> stop_after_capture q"
    by (rule run_loop_Stopped)
qed

theorem body_exception_backs_off_witness:
  "run_loop [failing_pass, unsent_pass, sleepless_pass, doomed_pass, quiet_pass] =
     ([Capture CaptureScreen, LogSignal ERROR (ThreadError OtherException),
       StatusSignal StatusError (ThreadError OtherException), Msleep 1000,
       Capture CaptureScreen, LogSignal ERROR (ThreadError PermissionError),
       StatusSignal StatusError (ThreadError PermissionError), Msleep 1000,
       Capture CaptureScreen, CaptureSignal 7, LogSignal INFO CaptureSucceeded, Msleep 100,
       LogSignal ERROR (ThreadError OtherException),
       StatusSignal StatusError (ThreadError OtherException), Msleep 1000,
       Capture CaptureScreen], Died PermissionError)"
proof -
  have n1: "\<not> stop_at_top failing_pass" and n2: "\<not> stop_at_top unsent_pass"
    and n3: "\<not> stop_at_top sleepless_pass" and n4: "\<not> stop_at_top doomed_pass"
    by (simp_all add: pass_defs quiet_fields)
  have four: "run_loop [doomed_pass, quiet_pass] = ([Capture CaptureScreen], Died PermissionError)"
    using body_exception_backs_off [OF n4, where x = OtherException and ps = "[quiet_pass]"
        and evs = "[Capture CaptureScreen]" and y = PermissionError]
    by (simp add: pass_defs quiet_fields)
  have three: "run_loop [sleepless_pass, doomed_pass, quiet_pass] =
      ([Capture CaptureScreen, CaptureSignal 7, LogSignal INFO CaptureSucceeded, Msleep 100,
        LogSignal ERROR (ThreadError OtherException),
        StatusSignal StatusError (ThreadError OtherException), Msleep 1000,
        Capture CaptureScreen], Died PermissionError)"
    using body_exception_backs_off [OF n3, where x = OtherException
        and ps = "[doomed_pass, quiet_pass]" and c = "Some 7" and n = 2 and j = 1
        and evs = "[Capture CaptureScreen, CaptureSignal 7, LogSignal INFO CaptureSucceeded,
                    Msleep 100]"] four
    by (simp add: pass_defs quiet_fields)
  have two: "run_loop [unsent_pass, sleepless_pass, doomed_pass, quiet_pass] =
      ([Capture CaptureScreen, LogSignal ERROR (ThreadError PermissionError),
        StatusSignal StatusError (ThreadError PermissionError), Msleep 1000,
        Capture CaptureScreen, CaptureSignal 7, LogSignal INFO CaptureSucceeded, Msleep 100,
        LogSignal ERROR (ThreadError OtherException),
        StatusSignal StatusError (ThreadError OtherException), Msleep 1000,
        Capture CaptureScreen], Died PermissionError)"
    using body_exception_backs_off [OF n2, where x = PermissionError
        and ps = "[sleepless_pass, doomed_pass, quiet_pass]" and pm = 7
        and evs = "[Capture CaptureScreen]"] three
    by (simp add: pass_defs quiet_fields)
  show ?thesis
    using body_exception_backs_off [OF n1, where x = OtherException
        and ps = "[unsent_pass, sleepless_pass, doomed_pass, quiet_pass]"
        and evs = "[Capture CaptureScreen]"] two
    by (simp add: pass_defs quiet_fields)
qed


text \<open>
  Claim C10: in a flush, an item whose bytes do not decode (the pixmap loaded from
  them is null) is taken out of the queue and dropped without a trace: no file is
  written for it (only its directory is made), it is not counted as saved, nothing is
  logged for it, and the items before and after it are handled as if it were not
  there. The pixmap is loaded once the directory stage has passed.
\<close>

theorem null_pixmap_dropped_silently:
  assumes "loadFromData e (data it) = Inr False" and "dir_stage_passed e it"
    and "queue (ram_buffer s) = before @ it # rest"
  shows "item_log e it = [] \<and> item_saved e it = 0 \<and> filter is_save (item_fs e it) = [] \<and>
         queue (ram_buffer (save_worker e s)) = [] \<and>
         fs_ops (save_worker e s) =
           fs_ops s @ concat (map (item_fs e) before) @ item_fs e it @
           concat (map (item_fs e) rest) \<and>
         log_manager (save_worker e s) =
           map_option
             (\<lambda>entries. entries @ concat (map (item_log e) (before @ rest)) @
                (if 0 < sum_list (map (item_saved e) (before @ rest))
                 then [(INFO, SavedCount (sum_list (map (item_saved e) (before @ rest))))]
                 else []))
             (log_manager s)"
proof -
  have l: "item_log e it = []"
    using assms(1,2)
    by (auto simp: item_log_stages write_log_cases dir_stage_passed_def)
  have n: "item_saved e it = 0"
    using assms(1) by (rule item_saved_null)
  have f: "filter is_save (item_fs e it) = []"
    using assms(1,2)
    by (auto simp: item_fs_stages write_fs_cases dir_stage_passed_def)
  have logs: "concat (map (item_log e) (before @ it # rest)) =
      concat (map (item_log e) (before @ rest))"
    using l by simp
  have sum: "sum_list (map (item_saved e) (before @ it # rest)) =
      sum_list (map (item_saved e) (before @ rest))"
    using n by simp
  have "log_manager (save_worker e s) =
           map_option
             (\<lambda>entries. entries @ concat (map (item_log e) (before @ rest)) @
                (if 0 < sum_list (map (item_saved e) (before @ rest))
                 then [(INFO, SavedCount (sum_list (map (item_saved e) (before @ rest))))]
                 else []))
             (log_manager s)"
    by (simp only: save_worker_log assms(3) logs sum)
  then show ?thesis
    by (simp add: l n f save_worker_fields assms(3))
qed

theorem null_pixmap_dropped_silently_witness:
  "log_manager (save_worker half_decodable
      (after [Add (at ''1'') (ByteArray ''A''), Add (at ''2'') (ByteArray ''B''),
              Add (at ''3'') (ByteArray ''C'')])) =
   map_option (\<lambda>entries. entries @
       [(INFO, SavedFile ''1.png''), (INFO, SavedFile ''3.png''), (INFO, SavedCount 2)])
     (log_manager (after [Add (at ''1'') (ByteArray ''A''), Add (at ''2'') (ByteArray ''B''),
              Add (at ''3'') (ByteArray ''C'')])) \<and>
   fs_ops (save_worker half_decodable
      (after [Add (at ''1'') (ByteArray ''A''), Add (at ''2'') (ByteArray ''B''),
              Add (at ''3'') (ByteArray ''C'')])) =
   fs_ops (after [Add (at ''1'') (ByteArray ''A''), Add (at ''2'') (ByteArray ''B''),
              Add (at ''3'') (ByteArray ''C'')]) @
   [MakeDirs ''/s/d'', SavePixmap ''/s/d/1.png'' (ByteArray ''A''), MakeDirs ''/s/d'',
    MakeDirs ''/s/d'', SavePixmap ''/s/d/3.png'' (ByteArray ''C'')]"
proof -
  let ?s = "after [Add (at ''1'') (ByteArray ''A''), Add (at ''2'') (ByteArray ''B''),
              Add (at ''3'') (ByteArray ''C'')]"
  have q: "queue (ram_buffer ?s) = [shot ''A'' ''1''] @ shot ''B'' ''2'' # [shot ''C'' ''3'']"
    using view_after_triple by (simp add: view_def)
  have n: "loadFromData half_decodable (data (shot ''B'' ''2'')) = Inr False"
    by (simp add: world_answers shot_fields)
  have d: "dir_stage_passed half_decodable (shot ''B'' ''2'')"
    by (simp add: dir_stage_passed_def world_answers)
  have fsA: "item_fs half_decodable (shot ''A'' ''1'') =
      [MakeDirs ''/s/d'', SavePixmap ''/s/d/1.png'' (ByteArray ''A'')]"
    and fsB: "item_fs half_decodable (shot ''B'' ''2'') = [MakeDirs ''/s/d'']"
    and fsC: "item_fs half_decodable (shot ''C'' ''3'') =
      [MakeDirs ''/s/d'', SavePixmap ''/s/d/3.png'' (ByteArray ''C'')]"
    by (simp_all add: item_fs_stages write_fs_cases world_answers shot_fields sample_paths)
  have logA: "item_log half_decodable (shot ''A'' ''1'') = [(INFO, SavedFile ''1.png'')]"
    and logC: "item_log half_decodable (shot ''C'' ''3'') = [(INFO, SavedFile ''3.png'')]"
    by (simp_all add: item_log_stages write_log_cases world_answers shot_fields sample_paths)
  have cnt: "item_saved half_decodable (shot ''A'' ''1'') = 1"
    "item_saved half_decodable (shot ''C'' ''3'') = 1"
    by (simp_all add: item_saved_def save_item_def load_and_save_def save_done_def Let_def
        world_answers shot_fields)
  show ?thesis
    using null_pixmap_dropped_silently [OF n d q]
    by (simp add: fsA fsB fsC logA logC cnt numeral_2_eq_2)
qed


end
